theory Spec2Isabelle
  imports Main
begin

section \<open>Data model\<close>

text \<open>
  Both source files (\<^verbatim>\<open>pathfinding.py\<close> and \<^verbatim>\<open>Boi_pathfinding.py\<close>) declare the same
  data: a point is a pair \<open>(x, y)\<close> of Python integers, \<open>x\<close> the column and \<open>y\<close> the row;
  a maze is a list of rows, each row a list of one-symbol strings. Python integers are
  unbounded, so coordinates and distances are \<open>int\<close>.
\<close>

type_synonym point = "int \<times> int"
type_synonym maze = "string list list"

definition START :: string where "START = ''S''"
definition END :: string where "END = ''E''"
definition FREE :: string where "FREE = ''.''"
definition WALL :: string where "WALL = ''#''"

text \<open>
  \<^verbatim>\<open>sys.maxsize\<close> on a 64-bit CPython. A Python list holds at most this many elements.
\<close>

definition sys_maxsize :: int where
  "sys_maxsize = 2 ^ 63 - 1"

text \<open>
  The exceptions the modelled code can raise: \<^verbatim>\<open>IndexError\<close> from a subscript out of
  range (or from popping an empty deque), \<^verbatim>\<open>ValueError\<close> from unpacking a tuple of the
  wrong length, \<^verbatim>\<open>ZeroDivisionError\<close> from \<^verbatim>\<open>//\<close> by zero, \<^verbatim>\<open>KeyError\<close> from
  subscripting a dict by a key it does not hold.
\<close>

datatype error = IndexError | ValueError | ZeroDivisionError | KeyError

subsection \<open>Python subscripts\<close>

text \<open>
  \<^verbatim>\<open>xs[i]\<close>: an index \<open>i\<close> with \<open>0 \<le> i < len(xs)\<close> is used as it is, an index with
  \<open>-len(xs) \<le> i < 0\<close> counts from the end, anything else raises \<^verbatim>\<open>IndexError\<close>.
\<close>

definition py_norm :: "nat \<Rightarrow> int \<Rightarrow> error + nat" where
  "py_norm n i =
     (if 0 \<le> i \<and> i < int n then Inr (nat i)
      else if - int n \<le> i \<and> i < 0 then Inr (nat (int n + i))
      else Inl IndexError)"

definition py_index :: "'a list \<Rightarrow> int \<Rightarrow> error + 'a" where
  "py_index xs i = (case py_norm (length xs) i of Inl e \<Rightarrow> Inl e | Inr j \<Rightarrow> Inr (xs ! j))"

definition py_store :: "'a list \<Rightarrow> int \<Rightarrow> 'a \<Rightarrow> error + 'a list" where
  "py_store xs i v = (case py_norm (length xs) i of Inl e \<Rightarrow> Inl e | Inr j \<Rightarrow> Inr (xs[j := v]))"

text \<open>\<^verbatim>\<open>m[y][x]\<close>: the row is subscripted first, then the column.\<close>

definition load2 :: "'a list list \<Rightarrow> int \<Rightarrow> int \<Rightarrow> error + 'a" where
  "load2 m x y = (case py_index m y of Inl e \<Rightarrow> Inl e | Inr row \<Rightarrow> py_index row x)"

text \<open>
  \<^verbatim>\<open>m[y][x] = v\<close>: the row object \<open>m[y]\<close> is fetched and mutated in place. The matrices
  the program stores into are built by a nested comprehension (or a deep copy), so no
  two rows are the same object and the store changes one row only.
\<close>

definition store2 :: "'a list list \<Rightarrow> int \<Rightarrow> int \<Rightarrow> 'a \<Rightarrow> error + 'a list list" where
  "store2 m x y v =
     (case py_norm (length m) y of
        Inl e \<Rightarrow> Inl e
      | Inr j \<Rightarrow> (case py_store (m ! j) x v of
                   Inl e \<Rightarrow> Inl e
                 | Inr row \<Rightarrow> Inr (m[j := row])))"

text \<open>
  \<^verbatim>\<open>mat[sy][sx] == 0\<close> compares a \<^verbatim>\<open>str\<close> with the integer \<open>0\<close>. In Python a string
  never equals an integer, whatever the string is.
\<close>

definition str_eq_int :: "string \<Rightarrow> int \<Rightarrow> bool" where
  "str_eq_int s n = False"

subsection \<open>Queue entries\<close>

text \<open>
  The queue holds tuples \<^verbatim>\<open>(x, y, dist, move, prev_cell)\<close>: the coordinates, the distance
  from the source, the name of the move that reached the cell (\<^verbatim>\<open>None\<close> for the source)
  and the tuple of the cell it was reached from (\<^verbatim>\<open>None\<close> for the source).
\<close>

datatype cell = Cell (cell_x: int) (cell_y: int) (cell_dist: int)
                     (cell_move: "string option") (prev_cell: "cell option")

text \<open>
  \<^verbatim>\<open>possible_moves\<close> is a dict literal; iterating \<^verbatim>\<open>.items()\<close> yields the entries in
  insertion order, so it is an association list.
\<close>

definition possible_moves :: "(string \<times> point) list" where
  "possible_moves =
     [(''Right'', (1, 0)),
      (''Down'', (0, 1)),
      (''Left'', (-1, 0)),
      (''Up'', (0, -1))]"

section \<open>Output\<close>

text \<open>
  What the program does to the outside world is recorded as a list of events, oldest
  first: the calls into pygame (\<^verbatim>\<open>canvas.fill\<close>, \<^verbatim>\<open>pygame.draw.rect\<close>,
  \<^verbatim>\<open>pygame.draw.polygon\<close>, \<^verbatim>\<open>pygame.draw.line\<close>, \<^verbatim>\<open>pygame.display.update\<close>, and the
  event polling of \<^verbatim>\<open>gui_handle_events\<close>), the clearing of the terminal
  (\<^verbatim>\<open>os.system\<close>) and the lines printed. These are calls into external collaborators;
  they are recorded and taken to return. Everything the program's own code computes
  around them, with the exceptions it can raise, is modelled.

  A canvas is known by the size \<^verbatim>\<open>canvas.get_size()\<close> reports, width first.
\<close>

datatype surface = Surface int int

text \<open>
  What \<^verbatim>\<open>all_paths\<close> holds: the pair \<^verbatim>\<open>(x, y)\<close>, or in one branch of the second file
  the triple \<^verbatim>\<open>(x, y, move)\<close>.
\<close>

datatype path_item = Pair int int | Triple int int "string option"

type_synonym color = "int \<times> int \<times> int"

text \<open>
  The pixel coordinates handed to pygame are floating-point numbers computed from the
  cell size and the border; an event names the maze cell \<open>(x, y)\<close> drawn instead:
  \<open>DrawRect color x y cell_w cell_h\<close> the rectangle of a cell, \<open>DrawPath x y move\<close> and
  \<open>DrawFinalPath x y move\<close> the shape \<^verbatim>\<open>get_shape\<close> gives for a move in a cell (a triangle
  for the four moves, a square for anything else: a \<^verbatim>\<open>dict.get\<close> with a default, which
  cannot raise), \<open>HLine\<close> and \<open>VLine\<close> a line of the grid.
\<close>

datatype event =
    Fill
  | DrawRect color int int int int
  | DrawPath int int "string option"
  | DrawFinalPath int int "string option"
  | HLine int
  | VLine int
  | DisplayUpdate
  | HandleEvents
  | ClearScreen
  | Print string

text \<open>
  The loop used for every \<^verbatim>\<open>for ... in ...:\<close> whose body can raise: the body is run on
  each element in turn and the first exception ends the loop.
\<close>

fun for_each :: "('a \<Rightarrow> 's \<Rightarrow> error + 's) \<Rightarrow> 'a list \<Rightarrow> 's \<Rightarrow> error + 's" where
  "for_each body [] s = Inr s"
| "for_each body (a # as) s =
     (case body a s of Inl e \<Rightarrow> Inl e | Inr s' \<Rightarrow> for_each body as s')"

section \<open>Printing to the terminal\<close>

text \<open>
  \<^verbatim>\<open>print_path\<close> (the same in both files) deep-copies the maze, so the caller's maze is
  never changed. With \<open>color\<close> it wraps every cell of \<open>path\<close> in an escape sequence, reading
  and storing \<^verbatim>\<open>maze[y][x]\<close> on the copy; without, it overwrites all but the last cell
  with \<^verbatim>\<open>@\<close>. Then it prints each row joined into one line. The loop header
  \<^verbatim>\<open>for x, y in path\<close> unpacks each element into two names, which raises
  \<^verbatim>\<open>ValueError\<close> on a tuple of another length: \<open>unpack\<close> is that step. The caller inside
  the search passes a set; a set is iterated in an order of its own, which does not
  matter for the rows printed, since each step wraps one cell by the same prefix and
  suffix. So the path is a list here.
\<close>

definition color_cell :: "('a \<Rightarrow> error + point) \<Rightarrow> 'a \<Rightarrow> maze \<Rightarrow> error + maze" where
  "color_cell unpack item maze =
     (case unpack item of
        Inl e \<Rightarrow> Inl e
      | Inr (x, y) \<Rightarrow>
          (case load2 maze x y of
             Inl e \<Rightarrow> Inl e
           | Inr s \<Rightarrow> store2 maze x y ((CHR 0x1B # ''[0;102m'') @ s @ (CHR 0x1B # ''[0m''))))"

definition at_cell :: "('a \<Rightarrow> error + point) \<Rightarrow> 'a \<Rightarrow> maze \<Rightarrow> error + maze" where
  "at_cell unpack item maze =
     (case unpack item of
        Inl e \<Rightarrow> Inl e
      | Inr (x, y) \<Rightarrow> store2 maze x y ''@'')"

definition print_path ::
  "('a \<Rightarrow> error + point) \<Rightarrow> maze \<Rightarrow> 'a list \<Rightarrow> bool \<Rightarrow> error + event list" where
  "print_path unpack maze path color =
     (case (if path \<noteq> [] then
              (if color then for_each (color_cell unpack) path maze
               else for_each (at_cell unpack) (butlast path) maze)
            else Inr maze) of
        Inl e \<Rightarrow> Inl e
      | Inr maze' \<Rightarrow> Inr (map (\<lambda>line. Print (concat line)) maze'))"

section \<open>Rendering to the window\<close>

text \<open>\<^verbatim>\<open>a // b\<close> on integers: floor division, raising on a zero divisor.\<close>

definition floor_div :: "int \<Rightarrow> int \<Rightarrow> error + int" where
  "floor_div a b = (if b = 0 then Inl ZeroDivisionError else Inr (a div b))"

text \<open>
  The first lines of \<^verbatim>\<open>gui_update\<close>, the same in both files: the size of a cell is the
  size of the canvas divided by the number of rows and by the length of the first row.
\<close>

definition cell_size :: "surface \<Rightarrow> maze \<Rightarrow> error + int \<times> int" where
  "cell_size canvas maze =
     (case canvas of Surface gui_w gui_h \<Rightarrow>
      let maze_rows = int (length maze) in
      (case py_index maze 0 of
         Inl e \<Rightarrow> Inl e
       | Inr row \<Rightarrow>
           let maze_cols = int (length row) in
           (case floor_div gui_h maze_rows of
              Inl e \<Rightarrow> Inl e
            | Inr cell_h \<Rightarrow>
                (case floor_div gui_w maze_cols of
                   Inl e \<Rightarrow> Inl e
                 | Inr cell_w \<Rightarrow> Inr (cell_w, cell_h)))))"

text \<open>
  \<^verbatim>\<open>color_map\<close> is a dict literal with four keys, the same in both files, and
  \<^verbatim>\<open>color_map[cell]\<close> raises \<^verbatim>\<open>KeyError\<close> on any other symbol.
\<close>

definition color_map :: "(string \<times> color) list" where
  "color_map =
     [(START, (128, 0, 0)),
      (END, (0, 255, 0)),
      (WALL, (20, 20, 20)),
      (FREE, (200, 200, 200))]"

definition draw_cell :: "int \<Rightarrow> int \<Rightarrow> int \<times> int \<times> string \<Rightarrow> event list \<Rightarrow> error + event list" where
  "draw_cell cell_w cell_h c out =
     (case c of (x, y, cell) \<Rightarrow>
        (case map_of color_map cell of
           None \<Rightarrow> Inl KeyError
         | Some color \<Rightarrow> Inr (out @ [DrawRect color x y cell_w cell_h])))"

text \<open>
  The nested loop \<^verbatim>\<open>for y, row in enumerate(maze): for x, cell in enumerate(row):\<close>
  visits the cells row by row.
\<close>

definition maze_cells :: "maze \<Rightarrow> (int \<times> int \<times> string) list" where
  "maze_cells maze =
     concat (map (\<lambda>(y, row). map (\<lambda>(x, cell). (int x, int y, cell)) (enumerate 0 row))
                 (enumerate 0 maze))"

definition draw_maze :: "int \<Rightarrow> int \<Rightarrow> maze \<Rightarrow> error + event list" where
  "draw_maze cell_w cell_h maze = for_each (draw_cell cell_w cell_h) (maze_cells maze) [Fill]"

definition draw_final_path :: "(point list \<times> string option list) option \<Rightarrow> event list" where
  "draw_final_path final_path =
     (case final_path of
        None \<Rightarrow> []
      | Some (points, moves) \<Rightarrow>
          map (\<lambda>((x, y), move). DrawFinalPath x y move) (zip points moves))"

text \<open>
  \<^verbatim>\<open>gui_update\<close> of \<^verbatim>\<open>pathfinding.py\<close>. The module variable \<^verbatim>\<open>maze_already_drawn\<close>
  (\<^verbatim>\<open>False\<close> when the module is loaded) is read and written through a \<^verbatim>\<open>global\<close>
  declaration: it comes in as an argument and goes out with the events. The maze is
  drawn only while the variable is false, and the variable is set once the maze has been
  drawn; when drawing raises, it keeps its value. The value \<^verbatim>\<open>gui_update\<close> returns is
  that of \<^verbatim>\<open>gui_handle_events\<close>, which the search does not use.
\<close>

definition gui_update ::
  "surface \<Rightarrow> maze \<Rightarrow> (int \<times> int \<times> string option) option
     \<Rightarrow> (point list \<times> string option list) option \<Rightarrow> bool \<Rightarrow> error + event list \<times> bool" where
  "gui_update canvas maze path final_path maze_already_drawn =
     (case cell_size canvas maze of
        Inl e \<Rightarrow> Inl e
      | Inr (cell_w, cell_h) \<Rightarrow>
          (case (if \<not> maze_already_drawn then
                   (case draw_maze cell_w cell_h maze of
                      Inl e \<Rightarrow> Inl e
                    | Inr out \<Rightarrow> Inr (out, True))
                 else Inr ([], maze_already_drawn)) of
             Inl e \<Rightarrow> Inl e
           | Inr (out, maze_already_drawn) \<Rightarrow>
               Inr (out
                    @ (case path of None \<Rightarrow> [] | Some (x, y, move) \<Rightarrow> [DrawPath x y move])
                    @ draw_final_path final_path
                    @ [DisplayUpdate, HandleEvents],
                    maze_already_drawn)))"

text \<open>
  \<^verbatim>\<open>gui_update\<close> of \<^verbatim>\<open>Boi_pathfinding.py\<close>: there is no module variable, the maze is
  drawn on every call; \<open>path\<close> is a collection whose elements the loop header
  \<^verbatim>\<open>for x, y, move in path\<close> unpacks into three names; \<open>grid\<close> asks for the grid lines,
  where the loop over the columns is nested in the loop over the rows.
\<close>

definition unpack3 :: "path_item \<Rightarrow> error + int \<times> int \<times> string option" where
  "unpack3 item = (case item of Triple x y move \<Rightarrow> Inr (x, y, move) | Pair _ _ \<Rightarrow> Inl ValueError)"

definition draw_item :: "path_item \<Rightarrow> event list \<Rightarrow> error + event list" where
  "draw_item item out =
     (case unpack3 item of
        Inl e \<Rightarrow> Inl e
      | Inr (x, y, move) \<Rightarrow> Inr (out @ [DrawPath x y move]))"

definition grid_lines :: "maze \<Rightarrow> event list" where
  "grid_lines maze =
     concat (map (\<lambda>row. HLine (int row) # map (\<lambda>col. VLine (int col)) [0 ..< length (maze ! 0) + 1])
                 [0 ..< length maze + 1])"

definition boi_gui_update ::
  "surface \<Rightarrow> maze \<Rightarrow> path_item list option
     \<Rightarrow> (point list \<times> string option list) option \<Rightarrow> bool \<Rightarrow> error + event list" where
  "boi_gui_update canvas maze path final_path grid =
     (case cell_size canvas maze of
        Inl e \<Rightarrow> Inl e
      | Inr (cell_w, cell_h) \<Rightarrow>
          (case draw_maze cell_w cell_h maze of
             Inl e \<Rightarrow> Inl e
           | Inr out \<Rightarrow>
               (case for_each draw_item (case path of None \<Rightarrow> [] | Some items \<Rightarrow> items) out of
                  Inl e \<Rightarrow> Inl e
                | Inr out \<Rightarrow>
                    Inr (out
                         @ draw_final_path final_path
                         @ (if grid then grid_lines maze else [])
                         @ [DisplayUpdate, HandleEvents]))))"

section \<open>The search\<close>

subsection \<open>The cell test and one neighbour\<close>

text \<open>
  \<^verbatim>\<open>is_valid\<close> is a closure over \<open>mat\<close> and \<open>visited\<close>. Its conjunction is evaluated left to
  right and stops at the first false conjunct, so the maze is only subscripted with
  indices already checked to be in \<open>0 \<le> i < len\<close>; the \<open>visited\<close> matrix is subscripted
  with the same indices, which raises if it does not have the maze's shape.
\<close>

definition is_valid :: "maze \<Rightarrow> bool list list \<Rightarrow> int \<Rightarrow> int \<Rightarrow> error + bool" where
  "is_valid mat visited px py =
     (if py \<ge> 0 \<and> py < int (length mat) \<and> px \<ge> 0 \<and> px < int (length (mat ! nat py))
         \<and> mat ! nat py ! nat px \<noteq> WALL
      then (case load2 visited px py of Inl e \<Rightarrow> Inl e | Inr v \<Rightarrow> Inr (\<not> v))
      else Inr False)"

text \<open>
  The body of \<^verbatim>\<open>for move, (dx, dy) in possible_moves.items()\<close>, for the dequeued tuple
  \<open>cell\<close>: a valid neighbour is marked visited and appended to the queue.
\<close>

definition visit_move ::
  "maze \<Rightarrow> cell \<Rightarrow> string \<times> point \<Rightarrow> bool list list \<times> cell list
     \<Rightarrow> error + (bool list list \<times> cell list)" where
  "visit_move mat cell mv s =
     (case mv of (move, (dx, dy)) \<Rightarrow>
      (case s of (visited, q) \<Rightarrow>
       (case cell of Cell x y dist _ _ \<Rightarrow>
        (case is_valid mat visited (x + dx) (y + dy) of
           Inl e \<Rightarrow> Inl e
         | Inr ok \<Rightarrow>
             if ok then
               (case store2 visited (x + dx) (y + dy) True of
                  Inl e \<Rightarrow> Inl e
                | Inr visited' \<Rightarrow>
                    Inr (visited', q @ [Cell (x + dx) (y + dy) (dist + 1) (Some move) (Some cell)]))
             else Inr (visited, q)))))"

subsection \<open>The loop\<close>

text \<open>
  One round of \<^verbatim>\<open>while q:\<close>. The state is \<open>(progress, visited, q, cell, min_dist)\<close>: the
  variables the loop reads and writes, \<open>progress\<close> standing for the variables only the
  progress branch uses. \<open>hook\<close> is the progress branch (the \<^verbatim>\<open>if print_progress:\<close>
  block), which is where the two files differ. The round dequeues the front tuple,
  runs the progress branch, and either breaks at the destination with \<open>min_dist\<close> set
  or visits the four neighbours.
\<close>

datatype ctl = Continue | Break

type_synonym 'p search_state = "'p \<times> bool list list \<times> cell list \<times> cell \<times> int"

definition loop_body ::
  "('p \<Rightarrow> cell \<Rightarrow> error + 'p) \<Rightarrow> maze \<Rightarrow> int \<Rightarrow> int \<Rightarrow> 'p search_state
     \<Rightarrow> error + (ctl \<times> 'p search_state)" where
  "loop_body hook mat ex ey st =
     (case st of (progress, visited, q, cell, min_dist) \<Rightarrow>
      (case q of
         [] \<Rightarrow> Inl IndexError
       | cell # q \<Rightarrow>
           (case hook progress cell of
              Inl e \<Rightarrow> Inl e
            | Inr progress \<Rightarrow>
                if cell_x cell = ex \<and> cell_y cell = ey then
                  Inr (Break, (progress, visited, q, cell, cell_dist cell))
                else
                  (case for_each (visit_move mat cell) possible_moves (visited, q) of
                     Inl e \<Rightarrow> Inl e
                   | Inr (visited, q) \<Rightarrow>
                       Inr (Continue, (progress, visited, q, cell, min_dist))))))"

text \<open>
  The number of cells not yet marked. Every round that does not shorten the queue marks
  a cell, which is why the loop ends.
\<close>

definition unmarked :: "bool list list \<Rightarrow> nat" where
  "unmarked visited = sum_list (map (\<lambda>row. length (filter Not row)) visited)"

lemma unmarked_row_mark:
  "i < length row \<Longrightarrow> \<not> row ! i \<Longrightarrow>
   length (filter Not (row[i := True])) < length (filter Not row)"
proof (induction row arbitrary: i)
  case Nil
  then show ?case by simp
next
  case (Cons b row)
  then show ?case by (cases i) auto
qed

lemma unmarked_mark:
  "j < length visited \<Longrightarrow> i < length (visited ! j) \<Longrightarrow> \<not> visited ! j ! i \<Longrightarrow>
   unmarked (visited[j := (visited ! j)[i := True]]) < unmarked visited"
proof (induction visited arbitrary: j)
  case Nil
  then show ?case by simp
next
  case (Cons row visited)
  show ?case
  proof (cases j)
    case 0
    with Cons.prems show ?thesis
      using unmarked_row_mark [of i row] by (simp add: unmarked_def)
  next
    case (Suc k)
    with Cons.prems Cons.IH [of k] show ?thesis
      by (simp add: unmarked_def)
  qed
qed

lemma py_norm_nonneg:
  "0 \<le> i \<Longrightarrow> py_norm n i = Inr j \<Longrightarrow> j = nat i \<and> j < n"
  by (auto simp: py_norm_def split: if_splits)

lemma visit_move_measure:
  assumes "visit_move mat cell mv (visited, q) = Inr (visited', q')"
  shows "(visited' = visited \<and> q' = q) \<or> unmarked visited' < unmarked visited"
proof -
  obtain move dx dy where mv: "mv = (move, (dx, dy))"
    by (cases mv) auto
  obtain x y dist m p where cell: "cell = Cell x y dist m p"
    by (cases cell) auto
  show ?thesis
  proof (cases "is_valid mat visited (x + dx) (y + dy) = Inr True")
    case False
    with assms mv cell show ?thesis
      by (auto simp: visit_move_def split: sum.splits if_splits)
  next
    case True
    then have nonneg: "0 \<le> x + dx" "0 \<le> y + dy"
      and ld: "load2 visited (x + dx) (y + dy) = Inr False"
      by (auto simp: is_valid_def split: if_splits sum.splits)
    from assms mv cell True
    have st: "store2 visited (x + dx) (y + dy) True = Inr visited'"
      by (auto simp: visit_move_def split: sum.splits)
    from st obtain j i where j: "py_norm (length visited) (y + dy) = Inr j"
      and i: "py_norm (length (visited ! j)) (x + dx) = Inr i"
      and v': "visited' = visited[j := (visited ! j)[i := True]]"
      by (auto simp: store2_def py_store_def split: sum.splits)
    from py_norm_nonneg [OF nonneg(2) j] py_norm_nonneg [OF nonneg(1) i]
    have bounds: "j < length visited" "i < length (visited ! j)"
      by auto
    from ld j i have "\<not> visited ! j ! i"
      by (auto simp: load2_def py_index_def split: sum.splits)
    with bounds v' show ?thesis
      using unmarked_mark [of j visited i] by simp
  qed
qed

lemma for_each_visit_move_measure:
  "for_each (visit_move mat cell) mvs (visited, q) = Inr (visited', q') \<Longrightarrow>
   (visited' = visited \<and> q' = q) \<or> unmarked visited' < unmarked visited"
proof (induction mvs arbitrary: visited q)
  case Nil
  then show ?case by simp
next
  case (Cons mv mvs)
  from Cons.prems obtain v1 q1 where
    one: "visit_move mat cell mv (visited, q) = Inr (v1, q1)"
    and rest: "for_each (visit_move mat cell) mvs (v1, q1) = Inr (visited', q')"
    by (auto split: sum.splits)
  from visit_move_measure [OF one] Cons.IH [OF rest] show ?case
    by auto
qed

lemma loop_body_measure:
  assumes "loop_body hook mat ex ey (progress, visited, q, cell, min_dist)
             = Inr (Continue, (progress', visited', q', cell', min_dist'))"
  shows "unmarked visited' < unmarked visited
         \<or> (unmarked visited' = unmarked visited \<and> length q' < length q)"
proof -
  from assms obtain c qs where q: "q = c # qs"
    and fe: "for_each (visit_move mat c) possible_moves (visited, qs) = Inr (visited', q')"
    by (auto simp: loop_body_def split: list.splits sum.splits if_splits)
  from for_each_visit_move_measure [OF fe] q show ?thesis
    by auto
qed

text \<open>
  \<^verbatim>\<open>while q:\<close> runs the round until the queue is empty or the round breaks, and leaves
  the variables as the last round left them.
\<close>

function while_q ::
  "('p \<Rightarrow> cell \<Rightarrow> error + 'p) \<Rightarrow> maze \<Rightarrow> int \<Rightarrow> int \<Rightarrow> 'p search_state
     \<Rightarrow> error + 'p search_state" where
  "while_q hook mat ex ey (progress, visited, q, cell, min_dist) =
     (if q = [] then Inr (progress, visited, q, cell, min_dist)
      else
        (case loop_body hook mat ex ey (progress, visited, q, cell, min_dist) of
           Inl e \<Rightarrow> Inl e
         | Inr (Break, st) \<Rightarrow> Inr st
         | Inr (Continue, st) \<Rightarrow> while_q hook mat ex ey st))"
  by pat_completeness auto
termination
  apply (relation "measures [\<lambda>(hook, mat, ex, ey, progress, visited, q, cell, min_dist). unmarked visited,
                             \<lambda>(hook, mat, ex, ey, progress, visited, q, cell, min_dist). length q]")
   apply simp
  subgoal for hook mat ex ey progress visited q cell min_dist x2 x1 st
    using loop_body_measure [of hook mat ex ey progress visited q cell min_dist]
    by (cases st) auto
  done

text \<open>
  The equation of \<open>while_q\<close> rewrites the loop into itself; it is unfolded only where
  a proof asks for it.
\<close>

declare while_q.simps [simp del]

subsection \<open>The progress branch\<close>

text \<open>
  The variables of the progress branch: \<^verbatim>\<open>last_printed_distance\<close>, \<^verbatim>\<open>all_paths\<close>, and
  the events emitted so far.
\<close>

type_synonym 'a progress = "int option \<times> 'a list \<times> event list"

text \<open>
  \<^verbatim>\<open>pathfinding.py\<close>: with a canvas the dequeued cell is drawn by \<^verbatim>\<open>gui_update\<close>, which
  reads and writes the module variable \<^verbatim>\<open>maze_already_drawn\<close>, so the branch carries
  that variable next to its own; otherwise the cell is added to \<^verbatim>\<open>all_paths\<close> and, when
  the distance has changed since the last print, the terminal is cleared and the maze
  printed with all cells dequeued so far.
\<close>

definition progress_step ::
  "maze \<Rightarrow> bool \<Rightarrow> surface option \<Rightarrow> point progress \<times> bool \<Rightarrow> cell
     \<Rightarrow> error + point progress \<times> bool" where
  "progress_step mat print_progress canvas st cell =
     (case st of ((last_printed_distance, all_paths, out), maze_already_drawn) \<Rightarrow>
      (case cell of Cell x y dist move _ \<Rightarrow>
       if print_progress then
         (case canvas of
            Some window \<Rightarrow>
              (case gui_update window mat (Some (x, y, move)) None maze_already_drawn of
                 Inl e \<Rightarrow> Inl e
               | Inr (drawn, maze_already_drawn) \<Rightarrow>
                   Inr ((last_printed_distance, all_paths, out @ drawn), maze_already_drawn))
          | None \<Rightarrow>
              let all_paths = List.insert (x, y) all_paths in
              if last_printed_distance \<noteq> Some dist then
                (case print_path Inr mat all_paths True of
                   Inl e \<Rightarrow> Inl e
                 | Inr printed \<Rightarrow>
                     Inr ((Some dist, all_paths, out @ [ClearScreen] @ printed),
                          maze_already_drawn))
              else Inr ((last_printed_distance, all_paths, out), maze_already_drawn))
       else Inr st))"

text \<open>
  \<^verbatim>\<open>Boi_pathfinding.py\<close>: with a canvas the triple \<^verbatim>\<open>(x, y, move)\<close> is added to
  \<^verbatim>\<open>all_paths\<close> and the whole set is drawn by that file's \<^verbatim>\<open>gui_update\<close>; the other
  branch is the same text as in the first file, on the same variable.
\<close>

definition unpack2 :: "path_item \<Rightarrow> error + point" where
  "unpack2 item = (case item of Pair x y \<Rightarrow> Inr (x, y) | Triple _ _ _ \<Rightarrow> Inl ValueError)"

definition boi_progress_step ::
  "maze \<Rightarrow> bool \<Rightarrow> surface option \<Rightarrow> path_item progress \<Rightarrow> cell \<Rightarrow> error + path_item progress" where
  "boi_progress_step mat print_progress canvas pr cell =
     (case pr of (last_printed_distance, all_paths, out) \<Rightarrow>
      (case cell of Cell x y dist move _ \<Rightarrow>
       if print_progress then
         (case canvas of
            Some window \<Rightarrow>
              let all_paths = List.insert (Triple x y move) all_paths in
              (case boi_gui_update window mat (Some all_paths) None False of
                 Inl e \<Rightarrow> Inl e
               | Inr drawn \<Rightarrow> Inr (last_printed_distance, all_paths, out @ drawn))
          | None \<Rightarrow>
              let all_paths = List.insert (Pair x y) all_paths in
              if last_printed_distance \<noteq> Some dist then
                (case print_path unpack2 mat all_paths True of
                   Inl e \<Rightarrow> Inl e
                 | Inr printed \<Rightarrow> Inr (Some dist, all_paths, out @ [ClearScreen] @ printed))
              else Inr (last_printed_distance, all_paths, out))
       else Inr pr))"

subsection \<open>Rebuilding the path\<close>

text \<open>
  The final \<^verbatim>\<open>while True:\<close> follows \<^verbatim>\<open>prev_cell\<close> from the last dequeued tuple and stops
  at the tuple without a predecessor, which is the source; that tuple is not added.
  \<^verbatim>\<open>insert(0, _)\<close> puts each cell and its move in front.
\<close>

fun trace_back :: "cell \<Rightarrow> point list \<Rightarrow> string option list
                     \<Rightarrow> point list \<times> string option list" where
  "trace_back (Cell x y dist move prev) path moves =
     (case prev of
        None \<Rightarrow> (path, moves)
      | Some cell \<Rightarrow> trace_back cell ((x, y) # path) (move # moves))"

subsection \<open>find_shortest_path\<close>

text \<open>
  The function returns the tuple \<^verbatim>\<open>(path, moves)\<close>, or \<^verbatim>\<open>(None, None)\<close> both for an
  input it rejects and for a destination it does not reach.
\<close>

type_synonym result = "point list option \<times> string option list option"

text \<open>
  The entry test \<^verbatim>\<open>not mat or len(mat) == 0 or mat[sy][sx] == 0 or mat[ey][ex] == 0\<close>:
  an \<^verbatim>\<open>or\<close> chain evaluated left to right, whose subscripts are not guarded and so can
  raise.
\<close>

definition invalid_input :: "maze \<Rightarrow> point \<Rightarrow> point \<Rightarrow> error + bool" where
  "invalid_input mat start_point end_point =
     (case start_point of (sx, sy) \<Rightarrow>
      (case end_point of (ex, ey) \<Rightarrow>
       if mat = [] \<or> length mat = 0 then Inr True
       else
         (case load2 mat sx sy of
            Inl e \<Rightarrow> Inl e
          | Inr s \<Rightarrow>
              if str_eq_int s 0 then Inr True
              else
                (case load2 mat ex ey of
                   Inl e \<Rightarrow> Inl e
                 | Inr t \<Rightarrow> Inr (str_eq_int t 0)))))"

text \<open>
  The body of \<^verbatim>\<open>find_shortest_path\<close>, which the two files share word for word apart
  from the progress branch \<open>hook\<close>: the entry test, the fresh \<open>visited\<close> matrix with the
  source marked, the loop started on the source tuple, the test of \<open>min_dist\<close>, and
  the path rebuilt from the last dequeued tuple. It returns the result together with
  the final progress variables.
\<close>

definition search ::
  "('p \<Rightarrow> cell \<Rightarrow> error + 'p) \<Rightarrow> 'p \<Rightarrow> maze \<Rightarrow> point \<Rightarrow> point \<Rightarrow> error + (result \<times> 'p)" where
  "search hook progress mat start_point end_point =
     (case start_point of (sx, sy) \<Rightarrow>
      (case end_point of (ex, ey) \<Rightarrow>
       (case invalid_input mat start_point end_point of
          Inl e \<Rightarrow> Inl e
        | Inr True \<Rightarrow> Inr ((None, None), progress)
        | Inr False \<Rightarrow>
            (case store2 (map (map (\<lambda>_. False)) mat) sx sy True of
               Inl e \<Rightarrow> Inl e
             | Inr visited \<Rightarrow>
                 (case while_q hook mat ex ey
                         (progress, visited, [Cell sx sy 0 None None],
                          Cell sx sy 0 None None, sys_maxsize) of
                    Inl e \<Rightarrow> Inl e
                  | Inr (progress, visited, q, cell, min_dist) \<Rightarrow>
                      if min_dist = sys_maxsize then Inr ((None, None), progress)
                      else
                        (case trace_back cell [] [] of
                           (path, moves) \<Rightarrow> Inr ((Some path, Some moves), progress)))))))"

text \<open>
  The call with its effects: the returned tuple and the events emitted. The function of
  \<^verbatim>\<open>pathfinding.py\<close> reads the module variable \<^verbatim>\<open>maze_already_drawn\<close> through
  \<^verbatim>\<open>gui_update\<close>: its value when the call starts is one more argument, its value when
  the call returns one more component of what is returned.
\<close>

definition find_shortest_path_io ::
  "maze \<Rightarrow> point \<Rightarrow> point \<Rightarrow> bool \<Rightarrow> surface option \<Rightarrow> bool
     \<Rightarrow> error + (result \<times> event list \<times> bool)" where
  "find_shortest_path_io mat start_point end_point print_progress canvas maze_already_drawn =
     (case search (progress_step mat print_progress canvas) ((None, [], []), maze_already_drawn)
             mat start_point end_point of
        Inl e \<Rightarrow> Inl e
      | Inr (res, ((_, _, out), maze_already_drawn)) \<Rightarrow> Inr (res, out, maze_already_drawn))"

definition boi_find_shortest_path_io ::
  "maze \<Rightarrow> point \<Rightarrow> point \<Rightarrow> bool \<Rightarrow> surface option \<Rightarrow> error + (result \<times> event list)" where
  "boi_find_shortest_path_io mat start_point end_point print_progress canvas =
     (case search (boi_progress_step mat print_progress canvas) (None, [], [])
             mat start_point end_point of
        Inl e \<Rightarrow> Inl e
      | Inr (res, (_, _, out)) \<Rightarrow> Inr (res, out))"

text \<open>What the caller gets back: the returned tuple, or the exception.\<close>

definition find_shortest_path ::
  "maze \<Rightarrow> point \<Rightarrow> point \<Rightarrow> bool \<Rightarrow> surface option \<Rightarrow> bool \<Rightarrow> error + result" where
  "find_shortest_path mat start_point end_point print_progress canvas maze_already_drawn =
     (case find_shortest_path_io mat start_point end_point print_progress canvas
             maze_already_drawn of
        Inl e \<Rightarrow> Inl e
      | Inr (res, _) \<Rightarrow> Inr res)"

definition boi_find_shortest_path ::
  "maze \<Rightarrow> point \<Rightarrow> point \<Rightarrow> bool \<Rightarrow> surface option \<Rightarrow> error + result" where
  "boi_find_shortest_path mat start_point end_point print_progress canvas =
     (case boi_find_shortest_path_io mat start_point end_point print_progress canvas of
        Inl e \<Rightarrow> Inl e
      | Inr (res, _) \<Rightarrow> Inr res)"

section \<open>Notions for stating and proving the claims\<close>

subsection \<open>Cells of the maze\<close>

text \<open>
  An index a Python list of length \<open>n\<close> accepts, and the position it stands for:
  a negative index counts from the end.
\<close>

definition in_index_range :: "nat \<Rightarrow> int \<Rightarrow> bool" where
  "in_index_range n i \<longleftrightarrow> - int n \<le> i \<and> i < int n"

definition wrap :: "nat \<Rightarrow> int \<Rightarrow> nat" where
  "wrap n i = (if i < 0 then nat (int n + i) else nat i)"

text \<open>
  A point \<open>(x, y)\<close> for which \<^verbatim>\<open>m[y][x]\<close> does not raise; and a point that lies in the
  matrix in the plain sense, with both coordinates counted from zero.
\<close>

definition indexable :: "'a list list \<Rightarrow> point \<Rightarrow> bool" where
  "indexable m p =
     (case p of (x, y) \<Rightarrow>
        in_index_range (length m) y \<and> in_index_range (length (m ! wrap (length m) y)) x)"

definition in_bounds :: "'a list list \<Rightarrow> point \<Rightarrow> bool" where
  "in_bounds m p =
     (case p of (x, y) \<Rightarrow>
        0 \<le> y \<and> y < int (length m) \<and> 0 \<le> x \<and> x < int (length (m ! nat y)))"

text \<open>A cell the search may enter: in bounds and not a wall.\<close>

definition free_cell :: "maze \<Rightarrow> point \<Rightarrow> bool" where
  "free_cell mat p = (case p of (x, y) \<Rightarrow> in_bounds mat p \<and> mat ! nat y ! nat x \<noteq> WALL)"

text \<open>Two matrices with rows of the same lengths; and the cells a \<open>visited\<close> matrix marks.\<close>

definition same_shape :: "'a list list \<Rightarrow> 'b list list \<Rightarrow> bool" where
  "same_shape m m' \<longleftrightarrow> map length m = map length m'"

definition marked :: "bool list list \<Rightarrow> point set" where
  "marked visited = {(x, y). in_bounds visited (x, y) \<and> visited ! nat y ! nat x}"

subsection \<open>Moves and queue tuples\<close>

text \<open>
  The cell of a tuple, the cell a displacement leads to, and the tuple the loop appends
  for a move \<open>(move, d)\<close> from the tuple \<open>c\<close>.
\<close>

definition pt :: "cell \<Rightarrow> point" where
  "pt c = (cell_x c, cell_y c)"

definition moved :: "point \<Rightarrow> point \<Rightarrow> point" where
  "moved p d = (fst p + fst d, snd p + snd d)"

definition child :: "cell \<Rightarrow> string \<Rightarrow> point \<Rightarrow> cell" where
  "child c move d =
     Cell (cell_x c + fst d) (cell_y c + snd d) (cell_dist c + 1) (Some move) (Some c)"

text \<open>The cells one of the moves \<open>mvs\<close> leads to from \<open>p\<close> that the search may enter.\<close>

definition neighbours :: "maze \<Rightarrow> point \<Rightarrow> (string \<times> point) list \<Rightarrow> point set" where
  "neighbours mat p mvs = {p'. \<exists>(move, d) \<in> set mvs. p' = moved p d \<and> free_cell mat p'}"

text \<open>
  Along the chain of predecessors of a tuple: how many there are, the cells after the
  first tuple's, and the moves.
\<close>

fun depth :: "cell \<Rightarrow> nat" where
  "depth (Cell x y dist move prev) = (case prev of None \<Rightarrow> 0 | Some c \<Rightarrow> Suc (depth c))"

fun trail :: "cell \<Rightarrow> point list" where
  "trail (Cell x y dist move prev) = (case prev of None \<Rightarrow> [] | Some c \<Rightarrow> trail c @ [(x, y)])"

fun trail_moves :: "cell \<Rightarrow> string option list" where
  "trail_moves (Cell x y dist move prev) =
     (case prev of None \<Rightarrow> [] | Some c \<Rightarrow> trail_moves c @ [move])"

text \<open>
  The tuples the search builds: the source tuple, and tuples made from a built tuple by
  one of the four moves into a cell that is in bounds and not a wall.
\<close>

inductive rooted :: "maze \<Rightarrow> point \<Rightarrow> cell \<Rightarrow> bool" for mat src where
  root: "rooted mat src (Cell (fst src) (snd src) 0 None None)"
| child: "rooted mat src c \<Longrightarrow> (move, d) \<in> set possible_moves \<Longrightarrow>
          free_cell mat (moved (pt c) d) \<Longrightarrow> rooted mat src (child c move d)"

subsection \<open>Walks in the maze\<close>

text \<open>Where a walk that starts in \<open>p\<close> and goes through \<open>ps\<close> ends.\<close>

definition end_of :: "point \<Rightarrow> point list \<Rightarrow> point" where
  "end_of p ps = last (p # ps)"

text \<open>
  Two cells one of the four moves apart. A walk from \<open>p\<close> through the cells \<open>ps\<close>: each
  cell is one move from the one before and can be entered. The starting cell itself
  is not tested, as the search does not test the source.
\<close>

definition adjacent :: "point \<Rightarrow> point \<Rightarrow> bool" where
  "adjacent p p' \<longleftrightarrow> (\<exists>(move, d) \<in> set possible_moves. p' = moved p d)"

fun walk_from :: "maze \<Rightarrow> point \<Rightarrow> point list \<Rightarrow> bool" where
  "walk_from mat p [] = True"
| "walk_from mat p (p' # ps) = (adjacent p p' \<and> free_cell mat p' \<and> walk_from mat p' ps)"

text \<open>The list of moves \<open>ms\<close>, executed from \<open>p\<close>, visits exactly the cells \<open>ps\<close>.\<close>

fun moves_lead :: "point \<Rightarrow> string option list \<Rightarrow> point list \<Rightarrow> bool" where
  "moves_lead p [] [] = True"
| "moves_lead p (m # ms) (p' # ps) =
     (case m of
        None \<Rightarrow> False
      | Some move \<Rightarrow>
          (case map_of possible_moves move of
             None \<Rightarrow> False
           | Some d \<Rightarrow> p' = moved p d \<and> moves_lead p' ms ps))"
| "moves_lead p _ _ = False"

text \<open>
  The cell \<open>p\<close> is the end of a walk of \<open>n\<close> steps from \<open>src\<close>; and \<open>n\<close> is the least such
  number.
\<close>

inductive reach :: "maze \<Rightarrow> point \<Rightarrow> nat \<Rightarrow> point \<Rightarrow> bool" for mat src where
  here: "reach mat src 0 src"
| step: "reach mat src n p \<Longrightarrow> adjacent p p' \<Longrightarrow> free_cell mat p' \<Longrightarrow> reach mat src (Suc n) p'"

definition shortest :: "maze \<Rightarrow> point \<Rightarrow> nat \<Rightarrow> point \<Rightarrow> bool" where
  "shortest mat src n p \<longleftrightarrow> reach mat src n p \<and> (\<forall>m < n. \<not> reach mat src m p)"

text \<open>
  The distance from \<open>s\<close> to \<open>e\<close> in the four-neighbour grid graph: the number of steps of
  a shortest walk.
\<close>

definition hop_distance :: "maze \<Rightarrow> point \<Rightarrow> point \<Rightarrow> nat" where
  "hop_distance mat s e = (LEAST n. \<exists>ps. length ps = n \<and> walk_from mat s ps \<and> last (s # ps) = e)"

text \<open>
  The place of a move in the iteration order of \<^verbatim>\<open>possible_moves\<close>: \<open>0\<close> for Right, \<open>1\<close>
  for Down, \<open>2\<close> for Left, \<open>3\<close> for Up.
\<close>

definition rank :: "string option \<Rightarrow> nat" where
  "rank m = length (takeWhile (\<lambda>mv. Some (fst mv) \<noteq> m) possible_moves)"

text \<open>
  Move lists compared position by position, the first difference deciding, an earlier
  move before a later one.
\<close>

fun moves_le :: "string option list \<Rightarrow> string option list \<Rightarrow> bool" where
  "moves_le [] ys = True"
| "moves_le (x # xs) [] = False"
| "moves_le (x # xs) (y # ys) = (rank x < rank y \<or> (x = y \<and> moves_le xs ys))"

definition move_lt :: "(string option \<times> string option) set" where
  "move_lt = inv_image less_than rank"

subsection \<open>States of the loop\<close>

text \<open>The variables of a state, by name.\<close>

definition st_visited :: "'p search_state \<Rightarrow> bool list list" where
  "st_visited st = fst (snd st)"

definition st_q :: "'p search_state \<Rightarrow> cell list" where
  "st_q st = fst (snd (snd st))"

definition st_cell :: "'p search_state \<Rightarrow> cell" where
  "st_cell st = fst (snd (snd (snd st)))"

definition st_min_dist :: "'p search_state \<Rightarrow> int" where
  "st_min_dist st = snd (snd (snd (snd st)))"

text \<open>The states at the head of the loop, from a starting state on.\<close>

inductive loop_reaches ::
  "('p \<Rightarrow> cell \<Rightarrow> error + 'p) \<Rightarrow> maze \<Rightarrow> int \<Rightarrow> int \<Rightarrow> 'p search_state \<Rightarrow> 'p search_state \<Rightarrow> bool"
  for hook mat ex ey st where
    start: "loop_reaches hook mat ex ey st st"
  | round: "loop_reaches hook mat ex ey st s \<Longrightarrow> st_q s \<noteq> [] \<Longrightarrow>
            loop_body hook mat ex ey s = Inr (Continue, s') \<Longrightarrow>
            loop_reaches hook mat ex ey st s'"

text \<open>
  The states at the head of the loop during a call: those the loop reaches from the
  state \<^verbatim>\<open>find_shortest_path\<close> starts it in.
\<close>

definition search_states ::
  "('p \<Rightarrow> cell \<Rightarrow> error + 'p) \<Rightarrow> 'p \<Rightarrow> maze \<Rightarrow> point \<Rightarrow> point \<Rightarrow> 'p search_state set" where
  "search_states hook progress mat start_point end_point =
     {st. \<exists>visited.
        store2 (map (map (\<lambda>_. False)) mat) (fst start_point) (snd start_point) True = Inr visited
        \<and> loop_reaches hook mat (fst end_point) (snd end_point)
            (progress, visited, [Cell (fst start_point) (snd start_point) 0 None None],
             Cell (fst start_point) (snd start_point) 0 None None, sys_maxsize) st}"

text \<open>What the call returns once the loop has ended in state \<open>fin\<close>.\<close>

definition finish :: "'p search_state \<Rightarrow> result \<times> 'p" where
  "finish fin =
     (case fin of (progress, visited, q, cell, min_dist) \<Rightarrow>
        if min_dist = sys_maxsize then ((None, None), progress)
        else (case trace_back cell [] [] of
                (path, moves) \<Rightarrow> ((Some path, Some moves), progress)))"

subsection \<open>Progress branches\<close>

text \<open>
  When drawing the maze to a window cannot raise: every symbol of the maze is a key of
  \<^verbatim>\<open>color_map\<close>.
\<close>

definition known_symbols :: "maze \<Rightarrow> bool" where
  "known_symbols mat = list_all (list_all (\<lambda>cell. map_of color_map cell \<noteq> None)) mat"

text \<open>
  When the progress branch of a call cannot raise in \<^verbatim>\<open>gui_update\<close>: progress is not
  reported to a window, or the first row of the maze is not empty and the maze either
  needs no drawing (\<^verbatim>\<open>maze_already_drawn\<close> is set) or has known symbols only. An empty
  maze is returned on before anything is drawn. The second file draws the maze on every
  call, which is the case of \<^verbatim>\<open>maze_already_drawn\<close> never set.
\<close>

definition render_ok :: "maze \<Rightarrow> bool \<Rightarrow> surface option \<Rightarrow> bool \<Rightarrow> bool" where
  "render_ok mat print_progress canvas maze_already_drawn \<longleftrightarrow>
     (print_progress \<and> canvas \<noteq> None \<longrightarrow>
        (case mat of
           [] \<Rightarrow> True
         | row # _ \<Rightarrow> row \<noteq> [] \<and> (maze_already_drawn \<or> known_symbols mat)))"

text \<open>
  What the progress branches rely on besides: every point collected in \<^verbatim>\<open>all_paths\<close>
  can subscript the maze, and in the second file every element is a triple when there
  is a canvas and a pair when there is none.
\<close>

definition pts_ok :: "maze \<Rightarrow> point progress \<Rightarrow> bool" where
  "pts_ok mat pr = (case pr of (_, all_paths, _) \<Rightarrow> list_all (indexable mat) all_paths)"

definition items_ok :: "maze \<Rightarrow> surface option \<Rightarrow> path_item progress \<Rightarrow> bool" where
  "items_ok mat canvas pr =
     (case pr of (_, all_paths, _) \<Rightarrow>
        list_all (\<lambda>item. case item of
                     Pair x y \<Rightarrow> canvas = None \<and> indexable mat (x, y)
                   | Triple _ _ _ \<Rightarrow> canvas \<noteq> None)
          all_paths)"

definition progress_ok ::
  "maze \<Rightarrow> bool \<Rightarrow> surface option \<Rightarrow> point progress \<times> bool \<Rightarrow> bool" where
  "progress_ok mat print_progress canvas st =
     (case st of (pr, maze_already_drawn) \<Rightarrow>
        pts_ok mat pr \<and> render_ok mat print_progress canvas maze_already_drawn)"

definition boi_progress_ok ::
  "maze \<Rightarrow> bool \<Rightarrow> surface option \<Rightarrow> path_item progress \<Rightarrow> bool" where
  "boi_progress_ok mat print_progress canvas pr \<longleftrightarrow>
     items_ok mat canvas pr \<and> render_ok mat print_progress canvas False"

text \<open>
  A progress branch is harmless for a property \<open>P\<close> of its variables when, on variables
  with \<open>P\<close> and a tuple whose coordinates can subscript the maze, it returns and keeps \<open>P\<close>.
\<close>

definition hook_ok :: "maze \<Rightarrow> ('p \<Rightarrow> bool) \<Rightarrow> ('p \<Rightarrow> cell \<Rightarrow> error + 'p) \<Rightarrow> bool" where
  "hook_ok mat P hook \<longleftrightarrow>
     (\<forall>pr c. P pr \<and> indexable mat (pt c) \<longrightarrow> (\<exists>pr'. hook pr c = Inr pr' \<and> P pr'))"

text \<open>
  The search with a progress branch that does nothing. Every call of either file's
  function is shown to give what this gives.
\<close>

definition no_progress :: "unit \<Rightarrow> cell \<Rightarrow> error + unit" where
  "no_progress u c = Inr u"

definition plain_search :: "maze \<Rightarrow> point \<Rightarrow> point \<Rightarrow> error + result" where
  "plain_search mat s e =
     (case search no_progress () mat s e of Inl err \<Rightarrow> Inl err | Inr (res, _) \<Rightarrow> Inr res)"

subsection \<open>Invariants of the loop\<close>

text \<open>
  For any source that passes the entry test: the \<open>visited\<close> matrix keeps the shape of
  the maze and every queued tuple was built by the search.
\<close>

definition inv_rooted :: "maze \<Rightarrow> point \<Rightarrow> 'p search_state \<Rightarrow> bool" where
  "inv_rooted mat src st \<longleftrightarrow>
     same_shape (st_visited st) mat \<and> (\<forall>c \<in> set (st_q st). rooted mat src c)"

text \<open>
  Between two rounds of the loop, for a source that lies in the maze: the source is
  marked; every queued tuple was built by the search, is marked, and no walk from the
  source reaches its cell in fewer steps than its depth; the queue is sorted by depth
  and spans at most two depths; every marked cell is reachable; and a marked cell that
  is no longer queued is not the destination and has all its free neighbours marked.
\<close>

definition bfs_inv :: "maze \<Rightarrow> point \<Rightarrow> point \<Rightarrow> 'p search_state \<Rightarrow> bool" where
  "bfs_inv mat src dst st \<longleftrightarrow>
     same_shape (st_visited st) mat
     \<and> src \<in> marked (st_visited st)
     \<and> (\<forall>c \<in> set (st_q st). rooted mat src c \<and> pt c \<in> marked (st_visited st)
            \<and> (\<forall>m < depth c. \<not> reach mat src m (pt c)))
     \<and> sorted (map depth (st_q st))
     \<and> (\<forall>c \<in> set (st_q st). depth c \<le> Suc (depth (hd (st_q st))))
     \<and> (\<forall>p \<in> marked (st_visited st). \<exists>n. reach mat src n p)
     \<and> (\<forall>p \<in> marked (st_visited st). p \<notin> pt ` set (st_q st) \<longrightarrow>
            p \<noteq> dst \<and> (\<forall>p'. adjacent p p' \<and> free_cell mat p' \<longrightarrow> p' \<in> marked (st_visited st)))"

text \<open>
  Between two rounds, for a source in the maze: the moves of every queued tuple are the
  first, in the order of the moves, among all walks of the same length to its cell; the
  queue is sorted by length, then by that order; and the tuples one step deeper than the
  front come from tuples that were before the front.
\<close>

definition key_inv :: "maze \<Rightarrow> point \<Rightarrow> 'p search_state \<Rightarrow> bool" where
  "key_inv mat src st \<longleftrightarrow>
     (\<forall>c \<in> set (st_q st). \<forall>ms ps.
         moves_lead src ms ps \<and> walk_from mat src ps \<and> end_of src ps = pt c
           \<and> length ms = depth c
         \<longrightarrow> trail_moves c = ms \<or> (trail_moves c, ms) \<in> lex move_lt)
     \<and> sorted_wrt (\<lambda>a b. (trail_moves a, trail_moves b) \<in> lenlex move_lt) (st_q st)
     \<and> (\<forall>n \<in> set (st_q st). depth n = Suc (depth (hd (st_q st))) \<longrightarrow>
           (butlast (trail_moves n), trail_moves (hd (st_q st))) \<in> lex move_lt)"

section \<open>Subscripts that do not raise\<close>

lemma py_norm_eq:
  "py_norm n i = (if in_index_range n i then Inr (wrap n i) else Inl IndexError)"
  by (auto simp: py_norm_def in_index_range_def wrap_def)

lemma wrap_less: "in_index_range n i \<Longrightarrow> wrap n i < n"
  by (auto simp: in_index_range_def wrap_def)

lemma wrap_nonneg: "0 \<le> i \<Longrightarrow> wrap n i = nat i"
  by (simp add: wrap_def)

lemma load2_eq:
  "load2 m x y =
     (if indexable m (x, y) then Inr (m ! wrap (length m) y ! wrap (length (m ! wrap (length m) y)) x)
      else Inl IndexError)"
  by (auto simp: load2_def py_index_def py_norm_eq indexable_def)

lemma store2_eq:
  "store2 m x y v =
     (if indexable m (x, y)
      then Inr (m[wrap (length m) y :=
                    (m ! wrap (length m) y)[wrap (length (m ! wrap (length m) y)) x := v]])
      else Inl IndexError)"
  by (auto simp: store2_def py_store_def py_norm_eq indexable_def)

lemma in_bounds_indexable: "in_bounds m p \<Longrightarrow> indexable m p"
  by (auto simp: in_bounds_def indexable_def in_index_range_def wrap_def)

lemma same_shape_length: "same_shape m m' \<Longrightarrow> length m = length m'"
  unfolding same_shape_def by (metis length_map)

lemma same_shape_row: "same_shape m m' \<Longrightarrow> j < length m \<Longrightarrow> length (m ! j) = length (m' ! j)"
  unfolding same_shape_def by (metis length_map nth_map)

lemma same_shape_refl: "same_shape m m"
  by (simp add: same_shape_def)

lemma same_shape_trans: "same_shape a b \<Longrightarrow> same_shape b c \<Longrightarrow> same_shape a c"
  by (simp add: same_shape_def)

lemma same_shape_sym: "same_shape a b \<Longrightarrow> same_shape b a"
  by (simp add: same_shape_def)

lemma same_shape_update:
  "j < length m \<Longrightarrow> i < length (m ! j) \<Longrightarrow> same_shape (m[j := (m ! j)[i := v]]) m"
  by (simp add: same_shape_def map_update list_update_same_conv)

lemma same_shape_indexable:
  assumes "same_shape m m'"
  shows "indexable m p = indexable m' p"
proof -
  obtain x y where p: "p = (x, y)" by (cases p)
  have len: "length m = length m'" using assms by (rule same_shape_length)
  show ?thesis
  proof (cases "in_index_range (length m) y")
    case True
    then have "wrap (length m) y < length m" by (rule wrap_less)
    with assms have "length (m ! wrap (length m) y) = length (m' ! wrap (length m) y)"
      by (rule same_shape_row)
    with len p show ?thesis by (simp add: indexable_def)
  next
    case False
    with len p show ?thesis by (simp add: indexable_def)
  qed
qed

lemma same_shape_in_bounds:
  assumes "same_shape m m'"
  shows "in_bounds m p = in_bounds m' p"
proof -
  obtain x y where p: "p = (x, y)" by (cases p)
  have len: "length m = length m'" using assms by (rule same_shape_length)
  show ?thesis
  proof (cases "0 \<le> y \<and> y < int (length m)")
    case True
    then have "nat y < length m" by auto
    with assms have "length (m ! nat y) = length (m' ! nat y)"
      by (rule same_shape_row)
    with len p show ?thesis by (simp add: in_bounds_def)
  next
    case False
    with len p show ?thesis by (auto simp: in_bounds_def)
  qed
qed

lemma store2_same_shape: "store2 m x y v = Inr m' \<Longrightarrow> same_shape m' m"
  by (auto simp: store2_eq indexable_def split: if_splits
           intro!: same_shape_update wrap_less)

lemma store2_in_bounds:
  "in_bounds m (x, y) \<Longrightarrow> store2 m x y v = Inr (m[nat y := (m ! nat y)[nat x := v]])"
  using in_bounds_indexable [of m "(x, y)"]
  by (simp add: store2_eq in_bounds_def wrap_nonneg)

lemma load2_in_bounds:
  "in_bounds m (x, y) \<Longrightarrow> load2 m x y = Inr (m ! nat y ! nat x)"
  using in_bounds_indexable [of m "(x, y)"]
  by (simp add: load2_eq in_bounds_def wrap_nonneg)

lemma marked_update:
  assumes "j < length visited" "i < length (visited ! j)"
  shows "marked (visited[j := (visited ! j)[i := True]]) = insert (int i, int j) (marked visited)"
proof -
  let ?v = "visited[j := (visited ! j)[i := True]]"
  have shape: "same_shape ?v visited" using assms by (rule same_shape_update)
  have "(x, y) \<in> marked ?v \<longleftrightarrow> (x, y) \<in> insert (int i, int j) (marked visited)" for x y
  proof (cases "in_bounds visited (x, y)")
    case False
    moreover have "in_bounds visited (int i, int j)" using assms by (simp add: in_bounds_def)
    ultimately show ?thesis
      using same_shape_in_bounds [OF shape, of "(x, y)"] by (auto simp: marked_def)
  next
    case True
    then have b: "nat y < length visited" "nat x < length (visited ! nat y)" "0 \<le> x" "0 \<le> y"
      by (auto simp: in_bounds_def)
    have "?v ! nat y ! nat x = (if nat y = j \<and> nat x = i then True else visited ! nat y ! nat x)"
      using b assms by (auto simp: nth_list_update)
    moreover have "(nat y = j \<and> nat x = i) = ((x, y) = (int i, int j))"
      using b by auto
    ultimately show ?thesis
      using True same_shape_in_bounds [OF shape, of "(x, y)"] by (auto simp: marked_def)
  qed
  then show ?thesis by auto
qed

section \<open>One neighbour, and the four of them\<close>

lemma pt_child: "pt (child c move d) = moved (pt c) d"
  by (simp add: pt_def child_def moved_def)

lemma is_valid_eq:
  assumes "same_shape visited mat"
  shows "is_valid mat visited px py
           = Inr (free_cell mat (px, py) \<and> (px, py) \<notin> marked visited)"
proof (cases "free_cell mat (px, py)")
  case False
  then show ?thesis
    by (auto simp: is_valid_def free_cell_def in_bounds_def)
next
  case True
  then have "in_bounds mat (px, py)" by (simp add: free_cell_def)
  then have b: "in_bounds visited (px, py)"
    using same_shape_in_bounds [OF assms] by simp
  from True have "is_valid mat visited px py
      = (case load2 visited px py of Inl e \<Rightarrow> Inl e | Inr v \<Rightarrow> Inr (\<not> v))"
    by (auto simp: is_valid_def free_cell_def in_bounds_def)
  with b True show ?thesis
    by (simp add: load2_in_bounds marked_def)
qed

lemma visit_move_eq:
  assumes "same_shape visited mat"
  shows "visit_move mat c (move, d) (visited, q) =
           (if free_cell mat (moved (pt c) d) \<and> moved (pt c) d \<notin> marked visited
            then Inr (visited[nat (cell_y c + snd d) :=
                        (visited ! nat (cell_y c + snd d))[nat (cell_x c + fst d) := True]],
                      q @ [child c move d])
            else Inr (visited, q))"
proof -
  obtain x y dist m p where c: "c = Cell x y dist m p" by (cases c)
  obtain dx dy where d: "d = (dx, dy)" by (cases d)
  show ?thesis
  proof (cases "free_cell mat (x + dx, y + dy) \<and> (x + dx, y + dy) \<notin> marked visited")
    case False
    then show ?thesis
      using assms by (auto simp: visit_move_def c d is_valid_eq pt_def moved_def)
  next
    case True
    then have "in_bounds mat (x + dx, y + dy)" by (simp add: free_cell_def)
    then have "in_bounds visited (x + dx, y + dy)"
      using same_shape_in_bounds [OF assms] by simp
    then show ?thesis
      using assms True
      by (simp add: visit_move_def c d is_valid_eq pt_def moved_def store2_in_bounds child_def)
  qed
qed

text \<open>What one neighbour does to the marks and the queue.\<close>

lemma visit_move_effect:
  assumes shape: "same_shape visited mat"
  obtains visited' new where
    "visit_move mat c (move, d) (visited, q) = Inr (visited', q @ new)"
    "same_shape visited' mat"
    "marked visited' = marked visited \<union> (if free_cell mat (moved (pt c) d) then {moved (pt c) d} else {})"
    "new = (if free_cell mat (moved (pt c) d) \<and> moved (pt c) d \<notin> marked visited
            then [child c move d] else [])"
proof (cases "free_cell mat (moved (pt c) d) \<and> moved (pt c) d \<notin> marked visited")
  case False
  show ?thesis
  proof (rule that [of visited "[]"])
    show "visit_move mat c (move, d) (visited, q) = Inr (visited, q @ [])"
      using False shape by (simp add: visit_move_eq)
  qed (use False shape in auto)
next
  case True
  let ?j = "nat (cell_y c + snd d)" and ?i = "nat (cell_x c + fst d)"
  let ?v = "visited[?j := (visited ! ?j)[?i := True]]"
  from True have "in_bounds mat (moved (pt c) d)" by (simp add: free_cell_def split: prod.splits)
  then have "in_bounds visited (moved (pt c) d)"
    using same_shape_in_bounds [OF shape] by simp
  then have b: "?j < length visited" "?i < length (visited ! ?j)"
    and nn: "0 \<le> cell_y c + snd d" "0 \<le> cell_x c + fst d"
    by (auto simp: in_bounds_def moved_def pt_def)
  show ?thesis
  proof (rule that [of ?v "[child c move d]"])
    show "visit_move mat c (move, d) (visited, q) = Inr (?v, q @ [child c move d])"
      using True shape by (simp add: visit_move_eq)
    show "same_shape ?v mat"
      using same_shape_update [OF b] shape by (rule same_shape_trans)
    show "marked ?v = marked visited \<union> (if free_cell mat (moved (pt c) d) then {moved (pt c) d} else {})"
      using marked_update [OF b] True nn by (simp add: moved_def pt_def)
  qed (use True in simp)
qed

lemma neighbours_Nil: "neighbours mat p [] = {}"
  by (simp add: neighbours_def)

lemma neighbours_Cons:
  "neighbours mat p ((move, d) # mvs) =
     (if free_cell mat (moved p d) then {moved p d} else {}) \<union> neighbours mat p mvs"
  by (auto simp: neighbours_def)

text \<open>What the \<^verbatim>\<open>for\<close> loop over a list of moves does to the marks and the queue.\<close>

lemma for_each_visit_move_effect:
  assumes "same_shape visited mat"
  shows "\<exists>visited' new.
           for_each (visit_move mat c) mvs (visited, q) = Inr (visited', q @ new)
           \<and> same_shape visited' mat
           \<and> marked visited' = marked visited \<union> neighbours mat (pt c) mvs
           \<and> (\<forall>n \<in> set new. \<exists>(move, d) \<in> set mvs.
                  n = child c move d \<and> free_cell mat (pt n) \<and> pt n \<notin> marked visited)
           \<and> pt ` set new = neighbours mat (pt c) mvs - marked visited"
  using assms
proof (induction mvs arbitrary: visited q)
  case Nil
  then show ?case by (simp add: neighbours_Nil)
next
  case (Cons mv mvs)
  obtain move d where mv: "mv = (move, d)" by (cases mv)
  from visit_move_effect [OF Cons.prems, of c move d q]
  obtain v1 new1 where one: "visit_move mat c (move, d) (visited, q) = Inr (v1, q @ new1)"
    and shape1: "same_shape v1 mat"
    and marked1: "marked v1 = marked visited
                     \<union> (if free_cell mat (moved (pt c) d) then {moved (pt c) d} else {})"
    and new1: "new1 = (if free_cell mat (moved (pt c) d) \<and> moved (pt c) d \<notin> marked visited
                       then [child c move d] else [])"
    by blast
  from Cons.IH [OF shape1, of "q @ new1"]
  obtain v2 new2 where rest: "for_each (visit_move mat c) mvs (v1, q @ new1) = Inr (v2, (q @ new1) @ new2)"
    and shape2: "same_shape v2 mat"
    and marked2: "marked v2 = marked v1 \<union> neighbours mat (pt c) mvs"
    and new2: "\<forall>n \<in> set new2. \<exists>(move, d) \<in> set mvs.
                  n = child c move d \<and> free_cell mat (pt n) \<and> pt n \<notin> marked v1"
    and pts2: "pt ` set new2 = neighbours mat (pt c) mvs - marked v1"
    by blast
  have run: "for_each (visit_move mat c) (mv # mvs) (visited, q) = Inr (v2, q @ (new1 @ new2))"
    using one rest mv by simp
  have mk: "marked v2 = marked visited \<union> neighbours mat (pt c) (mv # mvs)"
    using marked1 marked2 mv by (auto simp: neighbours_Cons)
  have sub: "marked visited \<subseteq> marked v1" using marked1 by auto
  have elems: "\<forall>n \<in> set (new1 @ new2). \<exists>(move, d) \<in> set (mv # mvs).
                  n = child c move d \<and> free_cell mat (pt n) \<and> pt n \<notin> marked visited"
  proof
    fix n assume "n \<in> set (new1 @ new2)"
    then consider "n \<in> set new1" | "n \<in> set new2" by auto
    then show "\<exists>(move, d) \<in> set (mv # mvs).
                  n = child c move d \<and> free_cell mat (pt n) \<and> pt n \<notin> marked visited"
    proof cases
      case 1
      with new1 mv show ?thesis by (auto simp: pt_child split: if_splits)
    next
      case 2
      with new2 sub show ?thesis by fastforce
    qed
  qed
  have pts: "pt ` set (new1 @ new2) = neighbours mat (pt c) (mv # mvs) - marked visited"
    using pts2 new1 marked1 mv by (auto simp: neighbours_Cons pt_child split: if_splits)
  from run shape2 mk elems pts show ?case by blast
qed

section \<open>One round of the loop\<close>

lemma st_simps [simp]:
  "st_visited (pr, visited, q, cell, md) = visited"
  "st_q (pr, visited, q, cell, md) = q"
  "st_cell (pr, visited, q, cell, md) = cell"
  "st_min_dist (pr, visited, q, cell, md) = md"
  by (simp_all add: st_visited_def st_q_def st_cell_def st_min_dist_def)

lemma loop_body_break:
  assumes "loop_body hook mat ex ey st = Inr (Break, st')"
  obtains c where "st_q st = c # st_q st'" "hook (fst st) c = Inr (fst st')"
    "pt c = (ex, ey)" "st_visited st' = st_visited st" "st_cell st' = c"
    "st_min_dist st' = cell_dist c"
proof -
  obtain pr visited q0 cell md where st: "st = (pr, visited, q0, cell, md)"
    by (cases st)
  from assms obtain c q pr' where "q0 = c # q" "hook pr c = Inr pr'"
    "cell_x c = ex \<and> cell_y c = ey" "st' = (pr', visited, q, c, cell_dist c)"
    unfolding st loop_body_def
    by (auto split: list.splits sum.splits if_splits)
  then show ?thesis
    by (intro that [of c]) (auto simp: st pt_def)
qed

lemma loop_body_continue:
  assumes "loop_body hook mat ex ey st = Inr (Continue, st')"
    and "same_shape (st_visited st) mat"
  obtains c q new where "st_q st = c # q" "hook (fst st) c = Inr (fst st')"
    "pt c \<noteq> (ex, ey)" "st_q st' = q @ new" "st_cell st' = c"
    "st_min_dist st' = st_min_dist st"
    "same_shape (st_visited st') mat"
    "marked (st_visited st') = marked (st_visited st) \<union> neighbours mat (pt c) possible_moves"
    "\<forall>n \<in> set new. \<exists>(move, d) \<in> set possible_moves.
        n = child c move d \<and> free_cell mat (pt n) \<and> pt n \<notin> marked (st_visited st)"
    "pt ` set new = neighbours mat (pt c) possible_moves - marked (st_visited st)"
proof -
  obtain pr visited q0 cell md where st: "st = (pr, visited, q0, cell, md)"
    by (cases st)
  from assms(1) obtain c q pr' v' q' where q0: "q0 = c # q"
    and hook: "hook pr c = Inr pr'"
    and nd: "\<not> (cell_x c = ex \<and> cell_y c = ey)"
    and fe: "for_each (visit_move mat c) possible_moves (visited, q) = Inr (v', q')"
    and st': "st' = (pr', v', q', c, md)"
    unfolding st loop_body_def
    by (auto split: list.splits sum.splits if_splits)
  from assms(2) have shape: "same_shape visited mat" by (simp add: st)
  from for_each_visit_move_effect [OF shape, of c possible_moves q] fe
  obtain new where "q' = q @ new" "same_shape v' mat"
    "marked v' = marked visited \<union> neighbours mat (pt c) possible_moves"
    "\<forall>n \<in> set new. \<exists>(move, d) \<in> set possible_moves.
        n = child c move d \<and> free_cell mat (pt n) \<and> pt n \<notin> marked visited"
    "pt ` set new = neighbours mat (pt c) possible_moves - marked visited"
    by auto
  with q0 hook nd st' show ?thesis
    by (intro that [of c q new]) (auto simp: st pt_def)
qed

lemma loop_body_returns:
  assumes "same_shape (st_visited st) mat" and "st_q st = c # q"
    and "hook (fst st) c = Inr pr'"
  shows "\<exists>ctl st'. loop_body hook mat ex ey st = Inr (ctl, st')"
proof -
  obtain pr visited q0 cell md where st: "st = (pr, visited, q0, cell, md)"
    by (cases st)
  from assms(1) have shape: "same_shape visited mat" by (simp add: st)
  from for_each_visit_move_effect [OF shape, of c possible_moves q]
  obtain v' q' where "for_each (visit_move mat c) possible_moves (visited, q) = Inr (v', q')"
    by blast
  with assms(2,3) show ?thesis
    by (simp add: st loop_body_def)
qed

section \<open>Reasoning about the whole loop\<close>

text \<open>
  An invariant of the rounds holds when the loop ends: either the queue ran empty
  with the invariant intact, or some round on a state with the invariant broke out.
\<close>

lemma while_q_rule:
  assumes "while_q hook mat ex ey st = Inr fin"
    and "I st"
    and "\<And>s s'. I s \<Longrightarrow> loop_body hook mat ex ey s = Inr (Continue, s') \<Longrightarrow> I s'"
  shows "(I fin \<and> st_q fin = [])
          \<or> (\<exists>s. I s \<and> loop_body hook mat ex ey s = Inr (Break, fin))"
  using assms
proof (induction hook mat ex ey st rule: while_q.induct)
  case (1 hook mat ex ey progress visited q cell min_dist)
  let ?st = "(progress, visited, q, cell, min_dist)"
  show ?case
  proof (cases "q = []")
    case True
    with "1.prems" show ?thesis by (auto simp: while_q.simps)
  next
    case False
    with "1.prems"(1) obtain ctl st' where
      body: "loop_body hook mat ex ey ?st = Inr (ctl, st')"
      by (auto simp: while_q.simps split: sum.splits)
    show ?thesis
    proof (cases ctl)
      case Break
      with body False "1.prems"(1) have "fin = st'" by (simp add: while_q.simps)
      with body Break "1.prems"(2) show ?thesis by blast
    next
      case Continue
      with body False "1.prems"(1) have run: "while_q hook mat ex ey st' = Inr fin"
        by (simp add: while_q.simps)
      from "1.prems"(3) [OF "1.prems"(2)] body Continue have "I st'" by blast
      show ?thesis
      proof (rule "1.IH" [OF False body refl Continue run])
        show "I st'" by fact
        show "\<And>s s'. I s \<Longrightarrow> loop_body hook mat ex ey s = Inr (Continue, s') \<Longrightarrow> I s'"
          by (rule "1.prems"(3))
      qed
    qed
  qed
qed

text \<open>
  The loop returns (no exception) when every round on a state with the invariant does.
\<close>

lemma while_q_returns:
  assumes "I st"
    and "\<And>s s'. I s \<Longrightarrow> loop_body hook mat ex ey s = Inr (Continue, s') \<Longrightarrow> I s'"
    and "\<And>s. I s \<Longrightarrow> st_q s \<noteq> [] \<Longrightarrow> \<exists>r. loop_body hook mat ex ey s = Inr r"
  shows "\<exists>fin. while_q hook mat ex ey st = Inr fin"
  using assms
proof (induction hook mat ex ey st rule: while_q.induct)
  case (1 hook mat ex ey progress visited q cell min_dist)
  let ?st = "(progress, visited, q, cell, min_dist)"
  show ?case
  proof (cases "q = []")
    case True
    then show ?thesis by (simp add: while_q.simps)
  next
    case False
    then have "st_q ?st \<noteq> []" by simp
    from "1.prems"(3) [OF "1.prems"(1) this] obtain r where
      "loop_body hook mat ex ey ?st = Inr r" by blast
    then obtain ctl st' where
      body: "loop_body hook mat ex ey ?st = Inr (ctl, st')"
      by (cases r) auto
    show ?thesis
    proof (cases ctl)
      case Break
      with body False have "while_q hook mat ex ey ?st = Inr st'" by (simp add: while_q.simps)
      then show ?thesis by blast
    next
      case Continue
      from "1.prems"(2) [OF "1.prems"(1)] body Continue have "I st'" by blast
      have "\<exists>fin. while_q hook mat ex ey st' = Inr fin"
      proof (rule "1.IH" [OF False body refl Continue])
        show "I st'" by fact
        show "\<And>s s'. I s \<Longrightarrow> loop_body hook mat ex ey s = Inr (Continue, s') \<Longrightarrow> I s'"
          by (rule "1.prems"(2))
        show "\<And>s. I s \<Longrightarrow> st_q s \<noteq> [] \<Longrightarrow> \<exists>r. loop_body hook mat ex ey s = Inr r"
          by (rule "1.prems"(3))
      qed
      then obtain fin where "while_q hook mat ex ey st' = Inr fin" by blast
      with body False Continue have "while_q hook mat ex ey ?st = Inr fin"
        by (simp add: while_q.simps)
      then show ?thesis by blast
    qed
  qed
qed

lemma loop_reaches_invariant:
  assumes "loop_reaches hook mat ex ey st s"
    and "I st"
    and "\<And>s s'. I s \<Longrightarrow> loop_body hook mat ex ey s = Inr (Continue, s') \<Longrightarrow> I s'"
  shows "I s"
  using assms by (induction rule: loop_reaches.induct) blast+

section \<open>Paths in the maze\<close>

lemma end_of_simps [simp]:
  "end_of p [] = p"
  "end_of p (p' # ps) = end_of p' ps"
  "end_of p (ps @ [p']) = p'"
  by (simp_all add: end_of_def)

lemma walk_from_append:
  "walk_from mat p (ps @ [p']) \<longleftrightarrow>
     walk_from mat p ps \<and> adjacent (end_of p ps) p' \<and> free_cell mat p'"
  by (induction ps arbitrary: p) auto

lemma moves_lead_append:
  "length ms = length ps \<Longrightarrow>
   moves_lead p (ms @ [m0]) (ps @ [p0]) \<longleftrightarrow>
     moves_lead p ms ps \<and> moves_lead (end_of p ps) [m0] [p0]"
proof (induction ms ps arbitrary: p rule: list_induct2)
  case Nil
  show ?case by simp
next
  case (Cons m ms p' ps)
  show ?case
  proof (cases m)
    case None
    then show ?thesis by simp
  next
    case (Some move)
    then show ?thesis
      using Cons.IH by (cases "map_of possible_moves move") auto
  qed
qed

lemma walk_reach:
  "walk_from mat src ps \<Longrightarrow> reach mat src (length ps) (end_of src ps)"
proof (induction ps rule: rev_induct)
  case Nil
  show ?case by (simp add: reach.here)
next
  case (snoc p' ps)
  then have "walk_from mat src ps" "adjacent (end_of src ps) p'" "free_cell mat p'"
    by (simp_all add: walk_from_append)
  with snoc.IH have "reach mat src (Suc (length ps)) p'"
    by (blast intro: reach.step)
  then show ?case by simp
qed

lemma reach_walk:
  "reach mat src n p \<Longrightarrow> \<exists>ps. length ps = n \<and> walk_from mat src ps \<and> end_of src ps = p"
proof (induction rule: reach.induct)
  case here
  show ?case by (rule exI [of _ "[]"]) simp
next
  case (step n p p')
  then obtain ps where "length ps = n" "walk_from mat src ps" "end_of src ps = p"
    by blast
  with step.hyps(2,3) have "length (ps @ [p']) = Suc n \<and> walk_from mat src (ps @ [p'])
      \<and> end_of src (ps @ [p']) = p'"
    by (simp add: walk_from_append)
  then show ?case by blast
qed

lemma reach_in_bounds:
  "reach mat src n p \<Longrightarrow> in_bounds mat src \<Longrightarrow> in_bounds mat p"
  by (induction rule: reach.induct) (auto simp: free_cell_def)

lemma adjacent_neighbours:
  "p' \<in> neighbours mat p possible_moves \<longleftrightarrow> adjacent p p' \<and> free_cell mat p'"
  by (auto simp: neighbours_def adjacent_def)

section \<open>The chain of predecessors\<close>

lemma trace_back_eq:
  "trace_back c path moves = (trail c @ path, trail_moves c @ moves)"
  by (induction c path moves rule: trace_back.induct) (simp split: option.splits)

lemma depth_child [simp]: "depth (child c move d) = Suc (depth c)"
  by (simp add: child_def)

lemma trail_child [simp]: "trail (child c move d) = trail c @ [moved (pt c) d]"
  by (simp add: child_def moved_def pt_def)

lemma trail_moves_child [simp]: "trail_moves (child c move d) = trail_moves c @ [Some move]"
  by (simp add: child_def)

lemma length_trail [simp]: "length (trail c) = depth c"
  by (induction c rule: depth.induct) (simp split: option.splits)

lemma length_trail_moves [simp]: "length (trail_moves c) = depth c"
  by (induction c rule: depth.induct) (simp split: option.splits)

lemma map_of_possible_moves:
  "(move, d) \<in> set possible_moves \<Longrightarrow> map_of possible_moves move = Some d"
  by (auto simp: possible_moves_def)

lemma rooted_dist: "rooted mat src c \<Longrightarrow> cell_dist c = int (depth c)"
  by (induction rule: rooted.induct) (simp_all add: child_def)

lemma rooted_last: "rooted mat src c \<Longrightarrow> end_of src (trail c) = pt c"
proof (induction rule: rooted.induct)
  case root
  show ?case by (simp add: pt_def)
next
  case (child c move d)
  show ?case by (simp add: pt_child)
qed

lemma rooted_walk: "rooted mat src c \<Longrightarrow> walk_from mat src (trail c)"
proof (induction rule: rooted.induct)
  case root
  show ?case by simp
next
  case (child c move d)
  then have "adjacent (pt c) (moved (pt c) d)"
    by (auto simp: adjacent_def)
  with child show ?case
    by (simp add: walk_from_append rooted_last)
qed

lemma rooted_moves_lead: "rooted mat src c \<Longrightarrow> moves_lead src (trail_moves c) (trail c)"
proof (induction rule: rooted.induct)
  case root
  show ?case by simp
next
  case (child c move d)
  then show ?case
    by (simp add: moves_lead_append rooted_last map_of_possible_moves)
qed

lemma rooted_reach: "rooted mat src c \<Longrightarrow> reach mat src (depth c) (pt c)"
  using walk_reach [OF rooted_walk, of mat src c] by (simp add: rooted_last)

lemma rooted_indexable:
  "rooted mat src c \<Longrightarrow> indexable mat src \<Longrightarrow> indexable mat (pt c)"
proof (induction rule: rooted.induct)
  case root
  then show ?case by (simp add: pt_def)
next
  case (child c move d)
  then show ?case
    by (auto simp: pt_child free_cell_def intro: in_bounds_indexable)
qed

lemma rooted_depth_0: "rooted mat src c \<Longrightarrow> depth c = 0 \<Longrightarrow> pt c = src"
  by (induction rule: rooted.induct) (simp_all add: pt_def)

section \<open>The progress branch does not raise\<close>

lemma color_cell_ok:
  assumes "unpack item = Inr p" "indexable maze p"
  shows "\<exists>maze'. color_cell unpack item maze = Inr maze' \<and> same_shape maze' maze"
proof -
  obtain x y where p: "p = (x, y)" by (cases p)
  from assms p obtain maze' where st: "color_cell unpack item maze = Inr maze'"
    by (auto simp: color_cell_def load2_eq store2_eq)
  then have "same_shape maze' maze"
    using assms p by (auto simp: color_cell_def load2_eq dest: store2_same_shape)
  with st show ?thesis by blast
qed

lemma for_each_color_cell_ok:
  "\<forall>item \<in> set items. \<exists>p. unpack item = Inr p \<and> indexable maze p \<Longrightarrow>
   \<exists>maze'. for_each (color_cell unpack) items maze = Inr maze'"
proof (induction items arbitrary: maze)
  case Nil
  show ?case by simp
next
  case (Cons item items)
  then obtain p where "unpack item = Inr p" "indexable maze p" by auto
  from color_cell_ok [of unpack item p maze] this obtain m1 where
    one: "color_cell unpack item maze = Inr m1" and shape: "same_shape m1 maze"
    by blast
  have "\<forall>item \<in> set items. \<exists>p. unpack item = Inr p \<and> indexable m1 p"
    using Cons.prems same_shape_indexable [OF shape] by auto
  from Cons.IH [OF this] one show ?case by simp
qed

lemma print_path_ok:
  "\<forall>item \<in> set items. \<exists>p. unpack item = Inr p \<and> indexable maze p \<Longrightarrow>
   \<exists>out. print_path unpack maze items True = Inr out"
  using for_each_color_cell_ok [of items unpack maze]
  by (auto simp: print_path_def)

lemma cell_size_ok:
  "row \<noteq> [] \<Longrightarrow> \<exists>cell_w cell_h. cell_size canvas (row # rows) = Inr (cell_w, cell_h)"
  by (cases canvas) (simp add: cell_size_def py_index_def py_norm_def floor_div_def Let_def)

lemma cell_size_empty_row: "cell_size canvas ([] # rows) = Inl ZeroDivisionError"
  by (cases canvas) (simp add: cell_size_def py_index_def py_norm_def floor_div_def Let_def)

lemma for_each_ok:
  "(\<And>a s. a \<in> set as \<Longrightarrow> \<exists>s'. body a s = Inr s') \<Longrightarrow> \<exists>s'. for_each body as s = Inr s'"
proof (induction as arbitrary: s)
  case Nil
  show ?case by simp
next
  case (Cons a as)
  from Cons.prems [of a s] obtain s1 where one: "body a s = Inr s1" by auto
  from Cons.IH [of s1] Cons.prems obtain s' where "for_each body as s1 = Inr s'" by auto
  with one show ?case by simp
qed

lemma for_each_raises:
  assumes "\<And>a s. a \<in> set as \<Longrightarrow> body a s = Inl err \<or> (\<exists>s'. body a s = Inr s')"
    and "\<exists>a \<in> set as. \<forall>s. body a s = Inl err"
  shows "for_each body as s = Inl err"
  using assms
proof (induction as arbitrary: s)
  case Nil
  then show ?case by simp
next
  case (Cons a as)
  show ?case
  proof (cases "body a s")
    case (Inl e)
    with Cons.prems(1) [of a s] show ?thesis by simp
  next
    case (Inr s1)
    with Cons.prems(2) have "\<exists>a \<in> set as. \<forall>s. body a s = Inl err" by auto
    from Cons.IH [OF _ this, of s1] Cons.prems(1) Inr show ?thesis by simp
  qed
qed

lemma symbols_maze_cells: "map (\<lambda>c. snd (snd c)) (maze_cells mat) = concat mat"
proof -
  have "map (\<lambda>c. snd (snd c)) (maze_cells mat)
      = concat (map (\<lambda>p. map snd (enumerate 0 (snd p))) (enumerate 0 mat))"
    by (simp add: maze_cells_def map_concat comp_def case_prod_unfold)
  also have "\<dots> = concat (map snd (enumerate 0 mat))"
    by (simp add: map_snd_enumerate)
  finally show ?thesis by (simp add: map_snd_enumerate)
qed

lemma known_symbols_cells:
  "known_symbols mat \<longleftrightarrow> (\<forall>c \<in> set (maze_cells mat). map_of color_map (snd (snd c)) \<noteq> None)"
proof -
  have "(\<forall>c \<in> set (maze_cells mat). map_of color_map (snd (snd c)) \<noteq> None)
      \<longleftrightarrow> (\<forall>cell \<in> set (map (\<lambda>c. snd (snd c)) (maze_cells mat)). map_of color_map cell \<noteq> None)"
    by simp
  also have "\<dots> \<longleftrightarrow> known_symbols mat"
    unfolding symbols_maze_cells by (auto simp: known_symbols_def list_all_iff)
  finally show ?thesis by simp
qed

lemma draw_maze_ok:
  assumes "known_symbols mat"
  shows "\<exists>out. draw_maze cell_w cell_h mat = Inr out"
  unfolding draw_maze_def
proof (rule for_each_ok)
  fix c s
  assume "c \<in> set (maze_cells mat)"
  with assms have "map_of color_map (snd (snd c)) \<noteq> None"
    by (simp add: known_symbols_cells)
  then show "\<exists>s'. draw_cell cell_w cell_h c s = Inr s'"
    by (cases c) (auto simp: draw_cell_def)
qed

lemma draw_maze_raises:
  assumes "\<not> known_symbols mat"
  shows "draw_maze cell_w cell_h mat = Inl KeyError"
  unfolding draw_maze_def
proof (rule for_each_raises)
  fix c s
  show "draw_cell cell_w cell_h c s = Inl KeyError \<or> (\<exists>s'. draw_cell cell_w cell_h c s = Inr s')"
    by (cases c) (auto simp: draw_cell_def split: option.splits)
next
  from assms have "\<exists>c \<in> set (maze_cells mat). map_of color_map (snd (snd c)) = None"
    unfolding known_symbols_cells by (simp only: ball_simps not_not)
  then obtain c where "c \<in> set (maze_cells mat)" "map_of color_map (snd (snd c)) = None"
    by blast
  then show "\<exists>c \<in> set (maze_cells mat). \<forall>s. draw_cell cell_w cell_h c s = Inl KeyError"
    by (intro bexI [of _ c]) (auto simp: draw_cell_def split: prod.splits)
qed

lemma gui_update_ok:
  assumes "row \<noteq> []" "maze_already_drawn \<or> known_symbols (row # rows)"
  shows "\<exists>out. gui_update canvas (row # rows) path final_path maze_already_drawn = Inr (out, True)"
proof -
  from cell_size_ok [OF assms(1)] obtain cell_w cell_h where
    size: "cell_size canvas (row # rows) = Inr (cell_w, cell_h)" by blast
  show ?thesis
  proof (cases maze_already_drawn)
    case True
    with size show ?thesis by (simp add: gui_update_def)
  next
    case False
    with assms(2) draw_maze_ok [of "row # rows" cell_w cell_h] obtain out where
      "draw_maze cell_w cell_h (row # rows) = Inr out" by blast
    with size False show ?thesis by (simp add: gui_update_def)
  qed
qed

lemma gui_update_raises:
  assumes "row = [] \<or> \<not> maze_already_drawn \<and> \<not> known_symbols (row # rows)"
  shows "gui_update canvas (row # rows) path final_path maze_already_drawn
       = Inl (if row = [] then ZeroDivisionError else KeyError)"
proof (cases "row = []")
  case True
  then show ?thesis by (simp add: gui_update_def cell_size_empty_row)
next
  case False
  from cell_size_ok [OF False] obtain cell_w cell_h where
    size: "cell_size canvas (row # rows) = Inr (cell_w, cell_h)" by blast
  from False assms have "\<not> maze_already_drawn" "\<not> known_symbols (row # rows)" by auto
  with size False draw_maze_raises [of "row # rows" cell_w cell_h] show ?thesis
    by (simp add: gui_update_def)
qed

lemma for_each_draw_item_ok:
  assumes "\<forall>item \<in> set items. \<exists>x y move. item = Triple x y move"
  shows "\<exists>out'. for_each draw_item items out = Inr out'"
proof (rule for_each_ok)
  fix a s
  assume "a \<in> set items"
  with assms show "\<exists>s'. draw_item a s = Inr s'"
    by (auto simp: draw_item_def unpack3_def)
qed

lemma boi_gui_update_ok:
  assumes "row \<noteq> []" "known_symbols (row # rows)"
    and "\<forall>item \<in> set items. \<exists>x y move. item = Triple x y move"
  shows "\<exists>out. boi_gui_update canvas (row # rows) (Some items) final_path grid = Inr out"
proof -
  from cell_size_ok [OF assms(1)] obtain cell_w cell_h where
    size: "cell_size canvas (row # rows) = Inr (cell_w, cell_h)" by blast
  from draw_maze_ok [OF assms(2)] obtain out where
    maze: "draw_maze cell_w cell_h (row # rows) = Inr out" by blast
  from for_each_draw_item_ok [OF assms(3)] obtain out' where
    "for_each draw_item items out = Inr out'" by blast
  with size maze show ?thesis by (simp add: boi_gui_update_def)
qed

lemma boi_gui_update_raises:
  assumes "row = [] \<or> \<not> known_symbols (row # rows)"
  shows "boi_gui_update canvas (row # rows) path final_path grid
       = Inl (if row = [] then ZeroDivisionError else KeyError)"
proof (cases "row = []")
  case True
  then show ?thesis by (simp add: boi_gui_update_def cell_size_empty_row)
next
  case False
  from cell_size_ok [OF False] obtain cell_w cell_h where
    size: "cell_size canvas (row # rows) = Inr (cell_w, cell_h)" by blast
  from False assms have "\<not> known_symbols (row # rows)" by auto
  with size False draw_maze_raises [of "row # rows" cell_w cell_h] show ?thesis
    by (simp add: boi_gui_update_def)
qed

lemma progress_step_ok:
  "hook_ok mat (progress_ok mat print_progress canvas) (progress_step mat print_progress canvas)"
  unfolding hook_ok_def
proof (intro allI impI, elim conjE)
  fix st :: "point progress \<times> bool" and c
  assume ok: "progress_ok mat print_progress canvas st" and idx: "indexable mat (pt c)"
  obtain lpd all_paths out drawn where st: "st = ((lpd, all_paths, out), drawn)"
    by (cases st) auto
  obtain x y dist move prev where c: "c = Cell x y dist move prev" by (cases c)
  from ok have pts: "pts_ok mat (lpd, all_paths, out)"
    and render: "render_ok mat print_progress canvas drawn"
    by (simp_all add: progress_ok_def st)
  show "\<exists>st'. progress_step mat print_progress canvas st c = Inr st'
             \<and> progress_ok mat print_progress canvas st'"
  proof (cases "print_progress \<and> canvas \<noteq> None")
    case True
    then obtain window where w: "canvas = Some window" by auto
    from idx obtain row rows where mat: "mat = row # rows"
      by (cases mat) (auto simp: indexable_def in_index_range_def)
    from render True have "row \<noteq> []" "drawn \<or> known_symbols (row # rows)"
      by (auto simp: render_ok_def mat)
    from gui_update_ok [OF this, of window "Some (x, y, move)" None] obtain drawn_out where
      "gui_update window mat (Some (x, y, move)) None drawn = Inr (drawn_out, True)"
      unfolding mat by blast
    with True pts \<open>row \<noteq> []\<close> show ?thesis
      by (simp add: progress_step_def st c w progress_ok_def pts_ok_def render_ok_def mat)
  next
    case False
    from pts idx have all: "\<forall>item \<in> set (List.insert (x, y) all_paths).
        \<exists>p. Inr item = Inr p \<and> indexable mat p"
      by (auto simp: pts_ok_def c pt_def list_all_iff)
    from print_path_ok [OF this] obtain printed where
      "print_path Inr mat (List.insert (x, y) all_paths) True = Inr printed"
      by blast
    with False pts all show ?thesis
      by (auto simp: progress_step_def st c progress_ok_def pts_ok_def render_ok_def Let_def
          list_all_iff)
  qed
qed

lemma boi_progress_step_ok:
  "hook_ok mat (boi_progress_ok mat print_progress canvas)
     (boi_progress_step mat print_progress canvas)"
  unfolding hook_ok_def
proof (intro allI impI, elim conjE)
  fix pr :: "path_item progress" and c
  assume ok: "boi_progress_ok mat print_progress canvas pr" and idx: "indexable mat (pt c)"
  obtain lpd all_paths out where pr: "pr = (lpd, all_paths, out)" by (cases pr)
  obtain x y dist move prev where c: "c = Cell x y dist move prev" by (cases c)
  from ok have items: "items_ok mat canvas (lpd, all_paths, out)"
    and render: "render_ok mat print_progress canvas False"
    by (simp_all add: boi_progress_ok_def pr)
  show "\<exists>pr'. boi_progress_step mat print_progress canvas pr c = Inr pr'
             \<and> boi_progress_ok mat print_progress canvas pr'"
  proof (cases "print_progress")
    case False
    with ok show ?thesis by (simp add: boi_progress_step_def pr c)
  next
    case pp: True
    show ?thesis
    proof (cases canvas)
      case (Some window)
      from idx obtain row rows where mat: "mat = row # rows"
        by (cases mat) (auto simp: indexable_def in_index_range_def)
      from render pp Some have row: "row \<noteq> []" and known: "known_symbols (row # rows)"
        by (auto simp: render_ok_def mat)
      have "\<exists>x y move. item = Triple x y move" if "item \<in> set all_paths" for item
        using items Some that by (cases item) (auto simp: items_ok_def list_all_iff)
      then have "\<forall>item \<in> set (List.insert (Triple x y move) all_paths).
          \<exists>x y move. item = Triple x y move"
        by auto
      from boi_gui_update_ok [OF row known this, of window None False] obtain drawn where
        "boi_gui_update window mat (Some (List.insert (Triple x y move) all_paths)) None False
           = Inr drawn"
        unfolding mat by blast
      with pp Some items render show ?thesis
        by (auto simp: boi_progress_step_def pr c boi_progress_ok_def items_ok_def Let_def
            list_all_iff)
    next
      case None
      with items idx have all: "\<forall>item \<in> set (List.insert (Pair x y) all_paths).
          \<exists>p. unpack2 item = Inr p \<and> indexable mat p"
        by (auto simp: items_ok_def c pt_def list_all_iff unpack2_def split: path_item.splits)
      from print_path_ok [OF this] obtain printed where
        "print_path unpack2 mat (List.insert (Pair x y) all_paths) True = Inr printed"
        by blast
      with items idx None pp render show ?thesis
        by (auto simp: boi_progress_step_def pr c boi_progress_ok_def items_ok_def Let_def
            list_all_iff pt_def)
    qed
  qed
qed

text \<open>When the window cannot be drawn, the progress branch raises at once.\<close>

lemma progress_step_raises:
  assumes "\<not> render_ok mat print_progress canvas maze_already_drawn"
  shows "progress_step mat print_progress canvas (pr, maze_already_drawn) c
       = Inl (if hd mat = [] then ZeroDivisionError else KeyError)"
proof -
  from assms obtain window row rows where pp: print_progress and w: "canvas = Some window"
    and mat: "mat = row # rows"
    and bad: "row = [] \<or> \<not> maze_already_drawn \<and> \<not> known_symbols (row # rows)"
    by (cases mat) (auto simp: render_ok_def)
  obtain lpd all_paths out where pr: "pr = (lpd, all_paths, out)" by (cases pr)
  obtain x y dist move prev where c: "c = Cell x y dist move prev" by (cases c)
  from gui_update_raises [OF bad, of window "Some (x, y, move)" None] pp show ?thesis
    by (simp add: progress_step_def pr c w mat)
qed

lemma boi_progress_step_raises:
  assumes "\<not> render_ok mat print_progress canvas False"
  shows "boi_progress_step mat print_progress canvas pr c
       = Inl (if hd mat = [] then ZeroDivisionError else KeyError)"
proof -
  from assms obtain window row rows where pp: print_progress and w: "canvas = Some window"
    and mat: "mat = row # rows"
    and bad: "row = [] \<or> \<not> known_symbols (row # rows)"
    by (cases mat) (auto simp: render_ok_def)
  obtain lpd all_paths out where pr: "pr = (lpd, all_paths, out)" by (cases pr)
  obtain x y dist move prev where c: "c = Cell x y dist move prev" by (cases c)
  from boi_gui_update_raises [OF bad, of window "Some (List.insert (Triple x y move) all_paths)"
      None False] pp
  show ?thesis
    by (simp add: boi_progress_step_def pr c w mat Let_def)
qed

section \<open>The loop returns, whatever the progress branch\<close>

lemma inv_rooted_continue:
  assumes "inv_rooted mat src s" "loop_body hook mat ex ey s = Inr (Continue, s')"
  shows "inv_rooted mat src s'"
proof -
  from assms(1) have shape: "same_shape (st_visited s) mat"
    and rooted: "\<forall>c \<in> set (st_q s). rooted mat src c"
    by (simp_all add: inv_rooted_def)
  from loop_body_continue [OF assms(2) shape]
  obtain c q new where q: "st_q s = c # q" and q': "st_q s' = q @ new"
    and shape': "same_shape (st_visited s') mat"
    and new: "\<forall>n \<in> set new. \<exists>(move, d) \<in> set possible_moves.
        n = child c move d \<and> free_cell mat (pt n) \<and> pt n \<notin> marked (st_visited s)"
    by metis
  have "rooted mat src n" if "n \<in> set new" for n
  proof -
    from new that obtain move d where "(move, d) \<in> set possible_moves"
      "n = child c move d" "free_cell mat (pt n)"
      by blast
    moreover have "rooted mat src c" using rooted q by simp
    ultimately show ?thesis by (auto simp: pt_child intro: rooted.child)
  qed
  with rooted q q' shape' show ?thesis
    by (auto simp: inv_rooted_def)
qed

lemma while_q_returns_rooted:
  assumes hook: "hook_ok mat P hook" and src: "indexable mat src"
    and inv: "inv_rooted mat src st" and P: "P (fst st)"
  shows "\<exists>fin. while_q hook mat ex ey st = Inr fin"
proof (rule while_q_returns [where I = "\<lambda>s. inv_rooted mat src s \<and> P (fst s)"])
  show "inv_rooted mat src st \<and> P (fst st)" using inv P by simp
next
  fix s s' :: "'a search_state"
  assume a: "inv_rooted mat src s \<and> P (fst s)"
    and body: "loop_body hook mat ex ey s = Inr (Continue, s')"
  then have shape: "same_shape (st_visited s) mat" by (simp add: inv_rooted_def)
  from loop_body_continue [OF body shape]
  obtain c q where q: "st_q s = c # q" and h: "hook (fst s) c = Inr (fst s')"
    by metis
  from a q have "rooted mat src c" by (simp add: inv_rooted_def)
  then have "indexable mat (pt c)" using src by (rule rooted_indexable)
  with hook a obtain pr' where "hook (fst s) c = Inr pr'" "P pr'"
    unfolding hook_ok_def by blast
  with h have "P (fst s')" by simp
  with a body show "inv_rooted mat src s' \<and> P (fst s')"
    by (auto intro: inv_rooted_continue)
next
  fix s :: "'a search_state"
  assume a: "inv_rooted mat src s \<and> P (fst s)" and ne: "st_q s \<noteq> []"
  then obtain c q where q: "st_q s = c # q" by (cases "st_q s") auto
  from a q have "rooted mat src c" by (simp add: inv_rooted_def)
  then have "indexable mat (pt c)" using src by (rule rooted_indexable)
  with hook a obtain pr' where h: "hook (fst s) c = Inr pr'" by (auto simp: hook_ok_def)
  from a have "same_shape (st_visited s) mat" by (simp add: inv_rooted_def)
  from loop_body_returns [of s mat c q hook pr' ex ey, OF this q h]
  show "\<exists>r. loop_body hook mat ex ey s = Inr r"
    by blast
qed

text \<open>How the loop ends, seen from the tuples: the last dequeued tuple was built by the search.\<close>

lemma while_q_outcome:
  assumes run: "while_q hook mat ex ey st = Inr fin"
    and inv: "inv_rooted mat src st"
  shows "(st_q fin = [] \<and> st_min_dist fin = st_min_dist st)
         \<or> (rooted mat src (st_cell fin) \<and> pt (st_cell fin) = (ex, ey)
            \<and> st_min_dist fin = cell_dist (st_cell fin))"
proof -
  let ?I = "\<lambda>s. inv_rooted mat src s \<and> st_min_dist s = st_min_dist st"
  have step: "?I s'" if "?I s" "loop_body hook mat ex ey s = Inr (Continue, s')" for s s'
  proof -
    from that have shape: "same_shape (st_visited s) mat" by (simp add: inv_rooted_def)
    from loop_body_continue [OF that(2) shape] have "st_min_dist s' = st_min_dist s"
      by metis
    with that show ?thesis by (auto intro: inv_rooted_continue)
  qed
  have "(?I fin \<and> st_q fin = [])
        \<or> (\<exists>s. ?I s \<and> loop_body hook mat ex ey s = Inr (Break, fin))"
  proof (rule while_q_rule [where I = ?I, OF run])
    show "?I st" using inv by simp
    show "\<And>s s'. ?I s \<Longrightarrow> loop_body hook mat ex ey s = Inr (Continue, s') \<Longrightarrow> ?I s'"
      by (rule step)
  qed
  then consider "?I fin \<and> st_q fin = []"
    | s where "?I s" "loop_body hook mat ex ey s = Inr (Break, fin)"
    by blast
  then show ?thesis
  proof cases
    case 1
    then show ?thesis by simp
  next
    case 2
    from loop_body_break [OF 2(2)] obtain c where "st_q s = c # st_q fin"
      "pt c = (ex, ey)" "st_cell fin = c" "st_min_dist fin = cell_dist c"
      by metis
    with 2(1) show ?thesis by (auto simp: inv_rooted_def)
  qed
qed

section \<open>The progress branch does not change the result\<close>

lemma loop_body_hook_free:
  assumes "loop_body h1 mat ex ey st1 = Inr (c1, f1)"
    and "loop_body h2 mat ex ey st2 = Inr (c2, f2)"
    and "snd st1 = snd st2"
  shows "c1 = c2 \<and> snd f1 = snd f2"
proof -
  obtain p1 visited q cell md where st1: "st1 = (p1, visited, q, cell, md)" by (cases st1)
  with assms(3) obtain p2 where st2: "st2 = (p2, visited, q, cell, md)" by (cases st2) auto
  from assms(1,2) show ?thesis
    unfolding st1 st2 loop_body_def
    by (auto split: list.splits sum.splits if_splits)
qed

lemma while_q_hook_free:
  assumes "while_q h1 mat ex ey st1 = Inr f1"
    and "while_q h2 mat ex ey st2 = Inr f2"
    and "snd st1 = snd st2"
  shows "snd f1 = snd f2"
  using assms
proof (induction h1 mat ex ey st1 arbitrary: st2 rule: while_q.induct)
  case (1 h1 mat ex ey p1 visited q cell md)
  let ?st1 = "(p1, visited, q, cell, md)"
  from "1.prems"(3) obtain p2 where st2: "st2 = (p2, visited, q, cell, md)"
    by (cases st2) auto
  show ?case
  proof (cases "q = []")
    case True
    with "1.prems" st2 show ?thesis by (simp add: while_q.simps)
  next
    case False
    with "1.prems"(1) obtain c1 s1 where b1: "loop_body h1 mat ex ey ?st1 = Inr (c1, s1)"
      by (auto simp: while_q.simps split: sum.splits)
    from False "1.prems"(2) st2 obtain c2 s2 where b2: "loop_body h2 mat ex ey st2 = Inr (c2, s2)"
      by (auto simp: while_q.simps split: sum.splits)
    from loop_body_hook_free [OF b1 b2] st2 have same: "c1 = c2" "snd s1 = snd s2"
      by simp_all
    show ?thesis
    proof (cases c1)
      case Break
      with b1 b2 same False "1.prems"(1,2) st2 show ?thesis by (auto simp: while_q.simps)
    next
      case Continue
      with b1 False "1.prems"(1) have r1: "while_q h1 mat ex ey s1 = Inr f1"
        by (simp add: while_q.simps)
      from Continue same b2 False "1.prems"(2) st2 have r2: "while_q h2 mat ex ey s2 = Inr f2"
        by (simp add: while_q.simps)
      from "1.IH" [OF False b1 refl Continue r1 r2 same(2)] show ?thesis .
    qed
  qed
qed

section \<open>The whole call\<close>

lemma invalid_input_eq:
  "invalid_input mat s e =
     (if mat = [] then Inr True
      else if indexable mat s \<and> indexable mat e then Inr False
      else Inl IndexError)"
  by (cases s; cases e) (auto simp: invalid_input_def load2_eq str_eq_int_def)

lemma indexable_nonempty: "indexable mat p \<Longrightarrow> mat \<noteq> []"
  by (auto simp: indexable_def in_index_range_def)

lemma indexable_row:
  assumes "indexable mat (x, y)"
  shows "mat ! wrap (length mat) y \<in> set mat" "mat ! wrap (length mat) y \<noteq> []"
proof -
  from assms have "wrap (length mat) y < length mat"
    by (simp add: indexable_def wrap_less)
  then show "mat ! wrap (length mat) y \<in> set mat" by simp
  from assms show "mat ! wrap (length mat) y \<noteq> []"
    by (auto simp: indexable_def in_index_range_def)
qed

lemma same_shape_blank: "same_shape (map (map f) mat) mat"
  by (simp add: same_shape_def comp_def)

lemma initial_visited:
  assumes "indexable mat (sx, sy)"
  obtains visited where "store2 (map (map (\<lambda>_. False)) mat) sx sy True = Inr visited"
    "same_shape visited mat"
proof -
  let ?blank = "map (map (\<lambda>_. False)) mat"
  have shape: "same_shape ?blank mat" by (rule same_shape_blank)
  with assms have "indexable ?blank (sx, sy)" by (simp add: same_shape_indexable)
  then obtain visited where st: "store2 ?blank sx sy True = Inr visited"
    by (auto simp: store2_eq)
  from store2_same_shape [OF st] shape have "same_shape visited mat"
    by (rule same_shape_trans)
  with st show ?thesis by (rule that)
qed

lemma initial_inv_rooted:
  "same_shape visited mat \<Longrightarrow>
   inv_rooted mat (sx, sy) (pr, visited, [Cell sx sy 0 None None], Cell sx sy 0 None None, md)"
  using rooted.root [of mat "(sx, sy)"] by (simp add: inv_rooted_def)

lemma search_eq:
  assumes "indexable mat (sx, sy)" "indexable mat (ex, ey)"
    and "store2 (map (map (\<lambda>_. False)) mat) sx sy True = Inr visited"
  shows "search hook pr mat (sx, sy) (ex, ey) =
           (case while_q hook mat ex ey
                   (pr, visited, [Cell sx sy 0 None None], Cell sx sy 0 None None, sys_maxsize) of
              Inl err \<Rightarrow> Inl err
            | Inr fin \<Rightarrow> Inr (finish fin))"
proof -
  have "mat \<noteq> []" using assms(1) by (rule indexable_nonempty)
  with assms show ?thesis
    by (auto simp: search_def invalid_input_eq finish_def split: sum.splits prod.splits)
qed

lemma fst_finish:
  "fst (finish fin) =
     (if st_min_dist fin = sys_maxsize then (None, None)
      else (Some (trail (st_cell fin)), Some (trail_moves (st_cell fin))))"
  by (cases fin) (simp add: finish_def trace_back_eq)

text \<open>When the call raises, and that it returns otherwise.\<close>

lemma search_raises:
  "mat \<noteq> [] \<Longrightarrow> \<not> (indexable mat s \<and> indexable mat e) \<Longrightarrow>
   search hook pr mat s e = Inl IndexError"
  by (cases s; cases e) (auto simp: search_def invalid_input_eq)

lemma search_empty: "search hook pr [] s e = Inr ((None, None), pr)"
  by (cases s; cases e) (simp add: search_def invalid_input_eq)

lemma search_Inr_cases:
  assumes "search hook pr mat s e = Inr r"
  obtains (empty) "mat = []" "r = ((None, None), pr)"
  | (run) sx sy ex ey visited fin where "s = (sx, sy)" "e = (ex, ey)"
      "indexable mat s" "indexable mat e"
      "same_shape visited mat"
      "store2 (map (map (\<lambda>_. False)) mat) sx sy True = Inr visited"
      "while_q hook mat ex ey
         (pr, visited, [Cell sx sy 0 None None], Cell sx sy 0 None None, sys_maxsize) = Inr fin"
      "r = finish fin"
proof (cases "mat = []")
  case True
  with assms show ?thesis by (auto simp: search_empty intro: empty)
next
  case False
  obtain sx sy where s: "s = (sx, sy)" by (cases s)
  obtain ex ey where e: "e = (ex, ey)" by (cases e)
  from assms False have idx: "indexable mat s" "indexable mat e"
    using search_raises [of mat s e hook pr] by auto
  from idx(1) obtain visited where v: "store2 (map (map (\<lambda>_. False)) mat) sx sy True = Inr visited"
    and shape: "same_shape visited mat"
    unfolding s by (rule initial_visited)
  from assms search_eq [OF idx [unfolded s e] v, of hook pr]
  obtain fin where "while_q hook mat ex ey
         (pr, visited, [Cell sx sy 0 None None], Cell sx sy 0 None None, sys_maxsize) = Inr fin"
      "r = finish fin"
    by (auto simp: s e split: sum.splits)
  with s e idx shape v show ?thesis by (rule run)
qed

lemma search_returns:
  assumes hook: "hook_ok mat P hook" and P: "P pr"
    and idx: "indexable mat s" "indexable mat e"
  shows "\<exists>r. search hook pr mat s e = Inr r"
proof -
  obtain sx sy where s: "s = (sx, sy)" by (cases s)
  obtain ex ey where e: "e = (ex, ey)" by (cases e)
  from idx(1) obtain visited where v: "store2 (map (map (\<lambda>_. False)) mat) sx sy True = Inr visited"
    and shape: "same_shape visited mat"
    unfolding s by (rule initial_visited)
  let ?st = "(pr, visited, [Cell sx sy 0 None None], Cell sx sy 0 None None, sys_maxsize)"
  have "inv_rooted mat s ?st" unfolding s using shape by (rule initial_inv_rooted)
  from while_q_returns_rooted [OF hook idx(1) this, of ex ey] P
  obtain fin where run: "while_q hook mat ex ey ?st = Inr fin" by auto
  with search_eq [OF idx [unfolded s e] v, of hook pr] show ?thesis
    by (simp add: s e)
qed

text \<open>A result with a path comes from a tuple the search built at the destination.\<close>

lemma search_found:
  assumes "search hook pr mat s e = Inr ((Some path, Some moves), pr')"
  obtains c where "rooted mat s c" "pt c = e" "path = trail c" "moves = trail_moves c"
    "cell_dist c \<noteq> sys_maxsize"
  using assms
proof (cases rule: search_Inr_cases)
  case empty
  then show ?thesis by simp
next
  case (run sx sy ex ey visited fin)
  let ?st = "(pr, visited, [Cell sx sy 0 None None], Cell sx sy 0 None None, sys_maxsize)"
  from run(8) have res: "fst (finish fin) = (Some path, Some moves)"
    by (metis fst_conv)
  then have md: "st_min_dist fin \<noteq> sys_maxsize"
    and tr: "path = trail (st_cell fin)" "moves = trail_moves (st_cell fin)"
    by (auto simp: fst_finish split: if_splits)
  have "inv_rooted mat s ?st" unfolding run(1) using run(5) by (rule initial_inv_rooted)
  from while_q_outcome [OF run(7) this] md
  have "rooted mat s (st_cell fin)" "pt (st_cell fin) = e"
    "cell_dist (st_cell fin) \<noteq> sys_maxsize"
    by (auto simp: run(2))
  with tr show ?thesis using that by blast
qed

text \<open>Two progress branches that do not raise give the same result.\<close>

lemma search_hook_free:
  assumes "search h1 p1 mat s e = Inr r1" "search h2 p2 mat s e = Inr r2"
  shows "fst r1 = fst r2"
  using assms(1)
proof (cases rule: search_Inr_cases)
  case empty
  with assms(2) show ?thesis by (auto simp: search_empty)
next
  case (run sx sy ex ey visited f1)
  from assms(2) search_eq [OF run(3,4) [unfolded run(1,2)] run(6), of h2 p2]
  obtain f2 where r2: "while_q h2 mat ex ey
         (p2, visited, [Cell sx sy 0 None None], Cell sx sy 0 None None, sys_maxsize) = Inr f2"
      "r2 = finish f2"
    by (auto simp: run(1,2) split: sum.splits)
  from while_q_hook_free [OF run(7) r2(1)] have "snd f1 = snd f2" by simp
  then have "st_min_dist f1 = st_min_dist f2" "st_cell f1 = st_cell f2"
    by (simp_all add: st_min_dist_def st_cell_def)
  with run(8) r2(2) show ?thesis by (simp add: fst_finish)
qed

lemma search_result_any_hook:
  assumes "hook_ok mat P1 h1" "P1 p1" "hook_ok mat P2 h2" "P2 p2"
  shows "(case search h1 p1 mat s e of Inl err \<Rightarrow> Inl err | Inr (res, _) \<Rightarrow> Inr res)
       = (case search h2 p2 mat s e of Inl err \<Rightarrow> Inl err | Inr (res, _) \<Rightarrow> Inr res)"
proof (cases "mat = []")
  case True
  then show ?thesis by (simp add: search_empty)
next
  case False
  show ?thesis
  proof (cases "indexable mat s \<and> indexable mat e")
    case False
    with \<open>mat \<noteq> []\<close> show ?thesis by (simp add: search_raises)
  next
    case True
    from search_returns [OF assms(1,2)] True obtain r1 where
      s1: "search h1 p1 mat s e = Inr r1" by blast
    from search_returns [OF assms(3,4)] True obtain r2 where
      s2: "search h2 p2 mat s e = Inr r2" by blast
    from search_hook_free [OF s1 s2] s1 s2 show ?thesis
      by (cases r1; cases r2) simp
  qed
qed

lemma progress_ok_initial:
  "render_ok mat print_progress canvas maze_already_drawn \<Longrightarrow>
   progress_ok mat print_progress canvas ((None, [], []), maze_already_drawn)"
  by (simp add: progress_ok_def pts_ok_def)

lemma boi_progress_ok_initial:
  "render_ok mat print_progress canvas False \<Longrightarrow>
   boi_progress_ok mat print_progress canvas (None, [], [])"
  by (simp add: boi_progress_ok_def items_ok_def)

lemma find_shortest_path_search:
  "find_shortest_path mat s e print_progress canvas maze_already_drawn =
     (case search (progress_step mat print_progress canvas) ((None, [], []), maze_already_drawn)
             mat s e of
        Inl err \<Rightarrow> Inl err | Inr (res, _) \<Rightarrow> Inr res)"
  by (auto simp: find_shortest_path_def find_shortest_path_io_def split: sum.splits)

lemma boi_find_shortest_path_search:
  "boi_find_shortest_path mat s e print_progress canvas =
     (case search (boi_progress_step mat print_progress canvas) (None, [], []) mat s e of
        Inl err \<Rightarrow> Inl err | Inr (res, _) \<Rightarrow> Inr res)"
  by (auto simp: boi_find_shortest_path_def boi_find_shortest_path_io_def split: sum.splits)

lemma no_progress_ok: "hook_ok mat (\<lambda>_. True) no_progress"
  by (simp add: hook_ok_def no_progress_def)

text \<open>
  A call whose progress branch cannot raise in \<^verbatim>\<open>gui_update\<close> gives what the search
  without a progress branch gives.
\<close>

lemma find_shortest_path_plain:
  assumes "render_ok mat print_progress canvas maze_already_drawn"
  shows "find_shortest_path mat s e print_progress canvas maze_already_drawn
       = plain_search mat s e"
  unfolding find_shortest_path_search plain_search_def
  using progress_step_ok progress_ok_initial [OF assms] no_progress_ok
  by (rule search_result_any_hook) simp

lemma boi_find_shortest_path_plain:
  assumes "render_ok mat print_progress canvas False"
  shows "boi_find_shortest_path mat s e print_progress canvas = plain_search mat s e"
  unfolding boi_find_shortest_path_search plain_search_def
  using boi_progress_step_ok boi_progress_ok_initial [OF assms] no_progress_ok
  by (rule search_result_any_hook) simp

text \<open>A call that returns, returns what the search without a progress branch returns.\<close>

lemma search_returned_plain:
  assumes "search hook pr mat s e = Inr r"
  shows "plain_search mat s e = Inr (fst r)"
proof (cases "mat = []")
  case True
  with assms show ?thesis by (auto simp: plain_search_def search_empty)
next
  case False
  with assms have idx: "indexable mat s" "indexable mat e"
    by (cases "indexable mat s \<and> indexable mat e"; simp add: search_raises)+
  from search_returns [OF no_progress_ok _ idx, of "()"] obtain r' where
    r': "search no_progress () mat s e = Inr r'" by auto
  from search_hook_free [OF assms r'] r' show ?thesis
    by (cases r') (simp add: plain_search_def)
qed

lemma find_shortest_path_returned:
  assumes "find_shortest_path mat s e print_progress canvas maze_already_drawn = Inr res"
  shows "plain_search mat s e = Inr res"
proof -
  from assms obtain r where
    "search (progress_step mat print_progress canvas) ((None, [], []), maze_already_drawn)
       mat s e = Inr r" "res = fst r"
    unfolding find_shortest_path_search by (auto split: sum.splits)
  with search_returned_plain show ?thesis by metis
qed

lemma boi_find_shortest_path_returned:
  assumes "boi_find_shortest_path mat s e print_progress canvas = Inr res"
  shows "plain_search mat s e = Inr res"
proof -
  from assms obtain r where
    "search (boi_progress_step mat print_progress canvas) (None, [], []) mat s e = Inr r"
    "res = fst r"
    unfolding boi_find_shortest_path_search by (auto split: sum.splits)
  with search_returned_plain show ?thesis by metis
qed

text \<open>
  A call whose progress branch raises in \<^verbatim>\<open>gui_update\<close> raises in the first round of the
  loop, once the entry test is passed.
\<close>

lemma search_hook_raises:
  assumes "indexable mat s" "indexable mat e"
    and "hook pr (Cell (fst s) (snd s) 0 None None) = Inl err"
  shows "search hook pr mat s e = Inl err"
proof -
  obtain sx sy where s: "s = (sx, sy)" by (cases s)
  obtain ex ey where e: "e = (ex, ey)" by (cases e)
  from assms(1) obtain visited where
    v: "store2 (map (map (\<lambda>_. False)) mat) sx sy True = Inr visited"
    unfolding s by (rule initial_visited)
  let ?root = "Cell sx sy 0 None None"
  from assms(3) have "loop_body hook mat ex ey (pr, visited, [?root], ?root, sys_maxsize)
      = Inl err"
    by (simp add: loop_body_def s)
  then have "while_q hook mat ex ey (pr, visited, [?root], ?root, sys_maxsize) = Inl err"
    by (simp add: while_q.simps)
  with search_eq [OF assms(1,2) [unfolded s e] v, of hook pr] show ?thesis
    by (simp add: s e)
qed

lemma find_shortest_path_raises:
  assumes "indexable mat s" "indexable mat e"
    and "\<not> render_ok mat print_progress canvas maze_already_drawn"
  shows "find_shortest_path mat s e print_progress canvas maze_already_drawn
       = Inl (if hd mat = [] then ZeroDivisionError else KeyError)"
  unfolding find_shortest_path_search
  using search_hook_raises [of mat s e "progress_step mat print_progress canvas"
      "((None, [], []), maze_already_drawn)", OF assms(1,2) progress_step_raises [OF assms(3)]]
  by simp

lemma boi_find_shortest_path_raises:
  assumes "indexable mat s" "indexable mat e"
    and "\<not> render_ok mat print_progress canvas False"
  shows "boi_find_shortest_path mat s e print_progress canvas
       = Inl (if hd mat = [] then ZeroDivisionError else KeyError)"
  unfolding boi_find_shortest_path_search
  using search_hook_raises [of mat s e "boi_progress_step mat print_progress canvas"
      "(None, [], [])", OF assms(1,2) boi_progress_step_raises [OF assms(3)]]
  by simp

lemma plain_search_found:
  assumes "plain_search mat s e = Inr (Some path, Some moves)"
  obtains c where "rooted mat s c" "pt c = e" "path = trail c" "moves = trail_moves c"
    "cell_dist c \<noteq> sys_maxsize"
proof -
  from assms obtain u where "search no_progress () mat s e = Inr ((Some path, Some moves), u)"
    by (auto simp: plain_search_def split: sum.splits)
  then show ?thesis using that by (rule search_found)
qed

lemma plain_search_cases:
  "plain_search mat s e =
     (if mat = [] then Inr (None, None)
      else if indexable mat s \<and> indexable mat e then plain_search mat s e
      else Inl IndexError)"
  by (auto simp: plain_search_def search_empty search_raises)

lemma plain_search_returns:
  assumes "indexable mat s" "indexable mat e"
  shows "\<exists>res. plain_search mat s e = Inr res"
  using search_returns [OF no_progress_ok _ assms, of "()"]
  by (auto simp: plain_search_def)

lemma plain_search_shape:
  assumes "plain_search mat s e = Inr res"
  shows "res = (None, None) \<or> (\<exists>path moves. res = (Some path, Some moves))"
proof -
  from assms obtain r where r: "search no_progress () mat s e = Inr r" "res = fst r"
    by (auto simp: plain_search_def split: sum.splits)
  from r(1) show ?thesis
  proof (cases rule: search_Inr_cases)
    case empty
    with r(2) show ?thesis by simp
  next
    case (run sx sy ex ey visited fin)
    with r(2) show ?thesis by (simp add: fst_finish)
  qed
qed

lemma sys_maxsize_pos: "0 \<noteq> sys_maxsize"
  by (simp add: sys_maxsize_def)

lemma plain_search_same:
  assumes "indexable mat s"
  shows "plain_search mat s s = Inr (Some [], Some [])"
proof -
  obtain sx sy where s: "s = (sx, sy)" by (cases s)
  from assms obtain visited where v: "store2 (map (map (\<lambda>_. False)) mat) sx sy True = Inr visited"
    unfolding s by (rule initial_visited)
  let ?root = "Cell sx sy 0 None None"
  have "loop_body no_progress mat sx sy ((), visited, [?root], ?root, sys_maxsize)
          = Inr (Break, ((), visited, [], ?root, 0))"
    by (simp add: loop_body_def no_progress_def)
  then have "while_q no_progress mat sx sy ((), visited, [?root], ?root, sys_maxsize)
          = Inr ((), visited, [], ?root, 0)"
    by (simp add: while_q.simps)
  with search_eq [OF assms [unfolded s] assms [unfolded s] v, of no_progress "()"]
  show ?thesis
    by (simp add: plain_search_def s finish_def sys_maxsize_pos)
qed

lemma plain_search_path:
  assumes "plain_search mat s e = Inr (Some path, Some moves)"
  shows "length moves = length path \<and> last (s # path) = e \<and> walk_from mat s path
         \<and> moves_lead s moves path \<and> (path = [] \<longleftrightarrow> s = e)"
proof -
  from assms obtain c where c: "rooted mat s c" "pt c = e" "path = trail c"
    "moves = trail_moves c"
    by (rule plain_search_found)
  have len: "length moves = length path" using c by simp
  have dest: "last (s # path) = e"
    using rooted_last [OF c(1)] c by (simp add: end_of_def)
  have "path = [] \<longleftrightarrow> s = e"
  proof
    assume "path = []"
    with dest show "s = e" by simp
  next
    assume "s = e"
    moreover from assms have "indexable mat s"
      using plain_search_cases [of mat s e] by (auto split: if_splits)
    ultimately show "path = []"
      using plain_search_same [of mat s] assms by simp
  qed
  with len dest rooted_walk [OF c(1)] rooted_moves_lead [OF c(1)] c show ?thesis
    by simp
qed

section \<open>The breadth-first invariant\<close>

lemma bfs_inv_levels:
  assumes inv: "bfs_inv mat src dst st" and q: "st_q st = c # q"
    and r: "reach mat src m p" and le: "m \<le> depth c"
  shows "p \<in> marked (st_visited st)"
  using r le
proof (induction rule: reach.induct)
  case here
  from inv show ?case by (simp add: bfs_inv_def)
next
  case (step n p p')
  then have marked: "p \<in> marked (st_visited st)" by simp
  have "p \<notin> pt ` set (st_q st)"
  proof
    assume "p \<in> pt ` set (st_q st)"
    then obtain c' where c': "c' \<in> set (st_q st)" "p = pt c'" by auto
    from inv q have "sorted (map depth (c # q))" by (simp add: bfs_inv_def)
    with c' q have "depth c \<le> depth c'" by auto
    with step.prems have "n < depth c'" by simp
    moreover from inv c' have "\<forall>m < depth c'. \<not> reach mat src m p"
      by (simp add: bfs_inv_def)
    ultimately show False using step.hyps(1) by simp
  qed
  with inv marked step.hyps(2,3) show ?case
    unfolding bfs_inv_def by blast
qed

lemma bfs_inv_exhausted:
  assumes inv: "bfs_inv mat src dst st" and q: "st_q st = []"
    and r: "reach mat src m p"
  shows "p \<in> marked (st_visited st) \<and> p \<noteq> dst"
proof -
  let ?V = "marked (st_visited st)"
  from inv q have src: "src \<in> ?V"
    and closed: "\<forall>p \<in> ?V. p \<noteq> dst \<and> (\<forall>p'. adjacent p p' \<and> free_cell mat p' \<longrightarrow> p' \<in> ?V)"
    unfolding bfs_inv_def by (simp_all del: split_paired_All)
  from r have "p \<in> ?V"
  proof (induction rule: reach.induct)
    case here
    from src show ?case .
  next
    case (step n p p')
    with closed show ?case by blast
  qed
  with closed show ?thesis by blast
qed

lemma bfs_inv_continue:
  assumes inv: "bfs_inv mat src (ex, ey) st"
    and body: "loop_body hook mat ex ey st = Inr (Continue, st')"
  shows "bfs_inv mat src (ex, ey) st'"
proof -
  let ?V = "marked (st_visited st)" and ?V' = "marked (st_visited st')"
  from inv have shape: "same_shape (st_visited st) mat" by (simp add: bfs_inv_def)
  from loop_body_continue [OF body shape]
  obtain c q new where q: "st_q st = c # q" and nd: "pt c \<noteq> (ex, ey)"
    and q': "st_q st' = q @ new"
    and shape': "same_shape (st_visited st') mat"
    and mk: "?V' = ?V \<union> neighbours mat (pt c) possible_moves"
    and new: "\<forall>n \<in> set new. \<exists>(move, d) \<in> set possible_moves.
        n = child c move d \<and> free_cell mat (pt n) \<and> pt n \<notin> ?V"
    and pts: "pt ` set new = neighbours mat (pt c) possible_moves - ?V"
    by metis
  from inv q have c: "rooted mat src c" "pt c \<in> ?V"
    and old: "\<forall>c' \<in> set q. rooted mat src c' \<and> pt c' \<in> ?V
                \<and> (\<forall>m < depth c'. \<not> reach mat src m (pt c'))"
    and srt: "sorted (map depth (c # q))"
    and spread: "\<forall>c' \<in> set q. depth c' \<le> Suc (depth c)"
    by (simp_all add: bfs_inv_def)
  have sub: "?V \<subseteq> ?V'" using mk by auto
  have new_depth: "depth n = Suc (depth c)" if "n \<in> set new" for n
    using new that by auto
  have src': "src \<in> ?V'" using inv sub by (auto simp: bfs_inv_def)
  have queued: "rooted mat src n \<and> pt n \<in> ?V' \<and> (\<forall>m < depth n. \<not> reach mat src m (pt n))"
    if n: "n \<in> set (q @ new)" for n
  proof (cases "n \<in> set q")
    case True
    with old sub show ?thesis by auto
  next
    case False
    with n have n: "n \<in> set new" by simp
    with new obtain move d where md: "(move, d) \<in> set possible_moves" "n = child c move d"
      "free_cell mat (pt n)" "pt n \<notin> ?V"
      by blast
    then have "rooted mat src n"
      using c(1) by (auto simp: pt_child intro: rooted.child)
    moreover have "pt n \<in> ?V'" using n pts mk by auto
    moreover have "\<not> reach mat src m (pt n)" if "m < depth n" for m
    proof
      assume "reach mat src m (pt n)"
      moreover from that have "m \<le> depth c" using new_depth [OF n] by simp
      ultimately have "pt n \<in> ?V" using bfs_inv_levels [OF inv q] by blast
      with md(4) show False by simp
    qed
    ultimately show ?thesis by simp
  qed
  have sorted': "sorted (map depth (q @ new))"
  proof -
    have "sorted (map depth new)"
      using new_depth by (simp add: sorted_wrt_iff_nth_less sorted_wrt_map)
    with srt spread new_depth show ?thesis
      by (auto simp: sorted_append)
  qed
  have spread': "depth n \<le> Suc (depth (hd (q @ new)))" if n: "n \<in> set (q @ new)" for n
  proof -
    have hd_in: "hd (q @ new) \<in> set (q @ new)"
      using n by (intro hd_in_set) auto
    have "depth c \<le> depth (hd (q @ new))"
    proof (cases "hd (q @ new) \<in> set q")
      case True
      with srt show ?thesis by auto
    next
      case False
      with hd_in have "hd (q @ new) \<in> set new" by simp
      then show ?thesis using new_depth by simp
    qed
    moreover have "depth n \<le> Suc (depth c)"
      using n spread new_depth by auto
    ultimately show ?thesis by simp
  qed
  have reachable': "\<exists>k. reach mat src k p" if p: "p \<in> ?V'" for p
  proof (cases "p \<in> ?V")
    case True
    with inv show ?thesis by (simp add: bfs_inv_def)
  next
    case False
    with p mk have "adjacent (pt c) p" "free_cell mat p"
      by (auto simp: adjacent_neighbours)
    with rooted_reach [OF c(1)] have "reach mat src (Suc (depth c)) p"
      by (rule reach.step)
    then show ?thesis ..
  qed
  have closed': "p \<noteq> (ex, ey) \<and> (\<forall>p'. adjacent p p' \<and> free_cell mat p' \<longrightarrow> p' \<in> ?V')"
    if p: "p \<in> ?V'" "p \<notin> pt ` set (q @ new)" for p
  proof -
    from p pts mk have pV: "p \<in> ?V" by auto
    from p have nq: "p \<notin> pt ` set q" by auto
    show ?thesis
    proof (cases "p = pt c")
      case True
      with nd mk show ?thesis by (auto simp: adjacent_neighbours)
    next
      case False
      with nq q have "p \<notin> pt ` set (st_q st)" by auto
      with inv pV have "p \<noteq> (ex, ey) \<and> (\<forall>p'. adjacent p p' \<and> free_cell mat p' \<longrightarrow> p' \<in> ?V)"
        unfolding bfs_inv_def by blast
      with sub show ?thesis by blast
    qed
  qed
  show ?thesis
    unfolding bfs_inv_def q'
    using shape' src' queued sorted' spread' reachable' closed' by blast
qed

lemma marked_blank: "marked (map (map (\<lambda>_. False)) mat) = {}"
  by (auto simp: marked_def in_bounds_def)

lemma initial_marked:
  assumes "in_bounds mat (sx, sy)"
    and "store2 (map (map (\<lambda>_. False)) mat) sx sy True = Inr visited"
  shows "marked visited = {(sx, sy)}"
proof -
  let ?blank = "map (map (\<lambda>_. False)) mat"
  have b: "in_bounds ?blank (sx, sy)"
    using assms(1) same_shape_in_bounds [OF same_shape_blank, of "\<lambda>_. False" mat] by simp
  then have j: "nat sy < length ?blank" and i: "nat sx < length (?blank ! nat sy)"
    and nn: "0 \<le> sx" "0 \<le> sy"
    by (auto simp: in_bounds_def)
  from assms(2) store2_in_bounds [OF b, of True]
  have "visited = ?blank[nat sy := (?blank ! nat sy)[nat sx := True]]" by simp
  with marked_update [OF j i] nn show ?thesis
    by (simp add: marked_blank)
qed

lemma initial_bfs_inv:
  assumes "in_bounds mat (sx, sy)"
    and "store2 (map (map (\<lambda>_. False)) mat) sx sy True = Inr visited"
  shows "bfs_inv mat (sx, sy) dst
           (pr, visited, [Cell sx sy 0 None None], Cell sx sy 0 None None, md)"
proof -
  have shape: "same_shape visited mat"
    using store2_same_shape [OF assms(2)] same_shape_blank by (rule same_shape_trans)
  have mk: "marked visited = {(sx, sy)}" using assms by (rule initial_marked)
  have root: "rooted mat (sx, sy) (Cell sx sy 0 None None)"
    using rooted.root [of mat "(sx, sy)"] by simp
  have "reach mat (sx, sy) 0 (sx, sy)" by (rule reach.here)
  then have "\<exists>n. reach mat (sx, sy) n (sx, sy)" ..
  with shape mk root show ?thesis
    by (simp add: bfs_inv_def pt_def)
qed

text \<open>How the loop ends when it starts from a state with the breadth-first invariant.\<close>

lemma while_q_bfs_outcome:
  assumes run: "while_q hook mat ex ey st = Inr fin"
    and inv: "bfs_inv mat src (ex, ey) st"
  shows "(st_q fin = [] \<and> st_min_dist fin = st_min_dist st \<and> bfs_inv mat src (ex, ey) fin)
         \<or> (rooted mat src (st_cell fin) \<and> pt (st_cell fin) = (ex, ey)
            \<and> (\<forall>m < depth (st_cell fin). \<not> reach mat src m (ex, ey))
            \<and> st_min_dist fin = cell_dist (st_cell fin))"
proof -
  let ?I = "\<lambda>s. bfs_inv mat src (ex, ey) s \<and> st_min_dist s = st_min_dist st"
  have step: "?I s'" if "?I s" "loop_body hook mat ex ey s = Inr (Continue, s')" for s s'
  proof -
    from that have shape: "same_shape (st_visited s) mat" by (simp add: bfs_inv_def)
    from loop_body_continue [OF that(2) shape] have "st_min_dist s' = st_min_dist s"
      by metis
    with that show ?thesis by (auto intro: bfs_inv_continue)
  qed
  have "(?I fin \<and> st_q fin = [])
        \<or> (\<exists>s. ?I s \<and> loop_body hook mat ex ey s = Inr (Break, fin))"
  proof (rule while_q_rule [where I = ?I, OF run])
    show "?I st" using inv by simp
    show "\<And>s s'. ?I s \<Longrightarrow> loop_body hook mat ex ey s = Inr (Continue, s') \<Longrightarrow> ?I s'"
      by (rule step)
  qed
  then consider "?I fin \<and> st_q fin = []"
    | s where "?I s" "loop_body hook mat ex ey s = Inr (Break, fin)"
    by blast
  then show ?thesis
  proof cases
    case 1
    then show ?thesis by simp
  next
    case 2
    from loop_body_break [OF 2(2)] obtain c where c: "st_q s = c # st_q fin"
      "pt c = (ex, ey)" "st_cell fin = c" "st_min_dist fin = cell_dist c"
      by metis
    from 2(1) c(1) have "rooted mat src c" "\<forall>m < depth c. \<not> reach mat src m (pt c)"
      by (simp_all add: bfs_inv_def)
    with c show ?thesis by simp
  qed
qed

section \<open>A shortest walk is shorter than the number of cells\<close>

lemma shortest_unique: "shortest mat src n p \<Longrightarrow> shortest mat src m p \<Longrightarrow> n = m"
  unfolding shortest_def by (metis linorder_neqE_nat)

lemma shortest_pred:
  assumes "shortest mat src (Suc n) p"
  obtains p0 where "shortest mat src n p0"
proof -
  from assms have "reach mat src (Suc n) p" by (simp add: shortest_def)
  then obtain p0 where p0: "reach mat src n p0" "adjacent p0 p" "free_cell mat p"
    by (cases rule: reach.cases) auto
  have "\<not> reach mat src m p0" if "m < n" for m
  proof
    assume "reach mat src m p0"
    with p0 have "reach mat src (Suc m) p" by (blast intro: reach.step)
    with assms that show False by (auto simp: shortest_def)
  qed
  with p0(1) have "shortest mat src n p0" by (simp add: shortest_def)
  then show ?thesis by (rule that)
qed

lemma shortest_levels:
  "shortest mat src n p \<Longrightarrow> k \<le> n \<Longrightarrow> \<exists>p'. shortest mat src k p'"
proof (induction n arbitrary: p)
  case 0
  then have "shortest mat src k p" by simp
  then show ?case ..
next
  case (Suc n)
  show ?case
  proof (cases "k = Suc n")
    case True
    with Suc.prems have "shortest mat src k p" by simp
    then show ?thesis ..
  next
    case False
    with Suc.prems have "k \<le> n" by simp
    moreover from Suc.prems(1) obtain p0 where "shortest mat src n p0"
      by (rule shortest_pred)
    ultimately show ?thesis by (rule Suc.IH [rotated])
  qed
qed

lemma shortest_card:
  assumes sh: "shortest mat src n p" and src: "in_bounds mat src"
    and fin: "finite {p. in_bounds mat p}"
  shows "Suc n \<le> card {p. in_bounds mat p}"
proof -
  define f where "f k = (SOME p'. shortest mat src k p')" for k
  have f: "shortest mat src k (f k)" if "k \<le> n" for k
    unfolding f_def using shortest_levels [OF sh that] by (rule someI_ex)
  have "inj_on f {..n}"
  proof (rule inj_onI)
    fix i j assume "i \<in> {..n}" "j \<in> {..n}" "f i = f j"
    with f [of i] f [of j] show "i = j" by (auto dest: shortest_unique)
  qed
  then have "card (f ` {..n}) = Suc n" by (simp add: card_image)
  moreover have "f ` {..n} \<subseteq> {p. in_bounds mat p}"
  proof
    fix x assume "x \<in> f ` {..n}"
    then obtain k where "k \<le> n" "x = f k" by auto
    with f have "reach mat src k x" by (simp add: shortest_def)
    then have "in_bounds mat x" using src by (rule reach_in_bounds)
    then show "x \<in> {p. in_bounds mat p}" by simp
  qed
  ultimately show ?thesis using card_mono [OF fin] by metis
qed

lemma in_bounds_rectangle:
  assumes "\<forall>row \<in> set mat. length row = w"
  shows "{p. in_bounds mat p} \<subseteq> (int ` {..<w}) \<times> (int ` {..<length mat})"
proof
  fix p assume "p \<in> {p. in_bounds mat p}"
  then obtain x y where p: "p = (x, y)" and b: "0 \<le> y" "y < int (length mat)" "0 \<le> x"
    "x < int (length (mat ! nat y))"
    by (cases p) (auto simp: in_bounds_def)
  from b have "nat y < length mat" by simp
  with assms have "length (mat ! nat y) = w" by simp
  with b have "nat x \<in> {..<w}" "nat y \<in> {..<length mat}" by auto
  then have "int (nat x) \<in> int ` {..<w}" "int (nat y) \<in> int ` {..<length mat}"
    by blast+
  with b p show "p \<in> (int ` {..<w}) \<times> (int ` {..<length mat})" by simp
qed

lemma in_bounds_card:
  assumes "\<forall>row \<in> set mat. length row = w"
  shows "finite {p. in_bounds mat p}" "card {p. in_bounds mat p} \<le> w * length mat"
proof -
  let ?R = "(int ` {..<w}) \<times> (int ` {..<length mat})"
  have fin: "finite ?R" by simp
  have sub: "{p. in_bounds mat p} \<subseteq> ?R" using assms by (rule in_bounds_rectangle)
  from sub fin show "finite {p. in_bounds mat p}" by (rule finite_subset)
  have "card ?R = w * length mat"
    by (simp add: card_cartesian_product card_image)
  with card_mono [OF fin sub] show "card {p. in_bounds mat p} \<le> w * length mat" by simp
qed

lemma shortest_below_maxsize:
  assumes "shortest mat src n p" "in_bounds mat src"
    and "\<forall>row \<in> set mat. length row = w" "int (w * length mat) \<le> sys_maxsize"
  shows "int n \<noteq> sys_maxsize"
proof -
  from in_bounds_card [OF assms(3)] shortest_card [OF assms(1,2)]
  have "Suc n \<le> w * length mat" by simp
  with assms(4) show ?thesis by linarith
qed

section \<open>What the search returns for a source in the maze\<close>

lemma plain_search_bfs:
  assumes src: "in_bounds mat s" and dst: "indexable mat e"
  obtains (none) "plain_search mat s e = Inr (None, None)" "\<forall>n. \<not> reach mat s n e"
  | (found) c where "rooted mat s c" "pt c = e" "\<forall>m < depth c. \<not> reach mat s m e"
      "plain_search mat s e =
         Inr (if cell_dist c = sys_maxsize then (None, None)
              else (Some (trail c), Some (trail_moves c)))"
proof -
  obtain sx sy where s: "s = (sx, sy)" by (cases s)
  obtain ex ey where e: "e = (ex, ey)" by (cases e)
  have idx: "indexable mat s" using src by (rule in_bounds_indexable)
  then obtain visited where v: "store2 (map (map (\<lambda>_. False)) mat) sx sy True = Inr visited"
    and shape: "same_shape visited mat"
    unfolding s by (rule initial_visited)
  let ?st = "((), visited, [Cell sx sy 0 None None], Cell sx sy 0 None None, sys_maxsize)"
  have inv: "bfs_inv mat s (ex, ey) ?st"
    unfolding s using src [unfolded s] v by (rule initial_bfs_inv)
  have "inv_rooted mat s ?st" unfolding s using shape by (rule initial_inv_rooted)
  from while_q_returns_rooted [OF no_progress_ok idx this, of ex ey]
  obtain fin where run: "while_q no_progress mat ex ey ?st = Inr fin" by auto
  with search_eq [OF idx [unfolded s] dst [unfolded e] v, of no_progress "()"]
  have res: "plain_search mat s e = Inr (fst (finish fin))"
    by (simp add: plain_search_def s e split: prod.splits)
  from while_q_bfs_outcome [OF run inv]
  consider "st_q fin = []" "st_min_dist fin = sys_maxsize" "bfs_inv mat s (ex, ey) fin"
    | "rooted mat s (st_cell fin)" "pt (st_cell fin) = (ex, ey)"
      "\<forall>m < depth (st_cell fin). \<not> reach mat s m (ex, ey)"
      "st_min_dist fin = cell_dist (st_cell fin)"
    by auto
  then show ?thesis
  proof cases
    case 1
    from bfs_inv_exhausted [OF 1(3,1)] have "\<forall>n. \<not> reach mat s n e"
      unfolding e by blast
    moreover from res 1(2) have "plain_search mat s e = Inr (None, None)"
      by (simp add: fst_finish)
    ultimately show ?thesis by (intro none)
  next
    case 2
    with res show ?thesis
      by (intro found [of "st_cell fin"]) (simp_all add: e fst_finish)
  qed
qed

lemma search_states_bfs_inv:
  assumes "in_bounds mat s" "st \<in> search_states hook pr mat s e"
  shows "bfs_inv mat s e st"
proof -
  obtain sx sy where s: "s = (sx, sy)" by (cases s)
  obtain ex ey where e: "e = (ex, ey)" by (cases e)
  from assms(2) obtain visited where
    v: "store2 (map (map (\<lambda>_. False)) mat) sx sy True = Inr visited"
    and lr: "loop_reaches hook mat ex ey
               (pr, visited, [Cell sx sy 0 None None], Cell sx sy 0 None None, sys_maxsize) st"
    by (auto simp: search_states_def s e)
  have "bfs_inv mat (sx, sy) (ex, ey) st"
  proof (rule loop_reaches_invariant [OF lr, where I = "bfs_inv mat (sx, sy) (ex, ey)"])
    show "bfs_inv mat (sx, sy) (ex, ey)
            (pr, visited, [Cell sx sy 0 None None], Cell sx sy 0 None None, sys_maxsize)"
      using assms(1) [unfolded s] v by (rule initial_bfs_inv)
    show "\<And>s s'. bfs_inv mat (sx, sy) (ex, ey) s \<Longrightarrow>
            loop_body hook mat ex ey s = Inr (Continue, s') \<Longrightarrow>
            bfs_inv mat (sx, sy) (ex, ey) s'"
      by (rule bfs_inv_continue)
  qed
  then show ?thesis by (simp add: s e)
qed

lemma search_states_marked:
  assumes "in_bounds mat s" "st \<in> search_states hook pr mat s e" "p \<in> marked (st_visited st)"
  shows "\<exists>ps. walk_from mat s ps \<and> last (s # ps) = p"
proof -
  from search_states_bfs_inv [OF assms(1,2)] assms(3) obtain n where "reach mat s n p"
    unfolding bfs_inv_def by blast
  from reach_walk [OF this, unfolded end_of_def] show ?thesis by blast
qed

text \<open>The loop's last state is one of these, or follows one of them by the round that breaks.\<close>

lemma while_q_reaches:
  assumes "while_q hook mat ex ey st = Inr fin"
  shows "\<exists>s. loop_reaches hook mat ex ey st s
             \<and> (fin = s \<or> loop_body hook mat ex ey s = Inr (Break, fin))"
proof -
  have "(loop_reaches hook mat ex ey st fin \<and> st_q fin = [])
        \<or> (\<exists>s. loop_reaches hook mat ex ey st s \<and> loop_body hook mat ex ey s = Inr (Break, fin))"
  proof (rule while_q_rule [where I = "loop_reaches hook mat ex ey st", OF assms])
    show "loop_reaches hook mat ex ey st st" by (rule loop_reaches.start)
    fix s s' assume a: "loop_reaches hook mat ex ey st s"
      "loop_body hook mat ex ey s = Inr (Continue, s')"
    then have "st_q s \<noteq> []"
      by (cases s) (auto simp: loop_body_def)
    with a(1) show "loop_reaches hook mat ex ey st s'"
      using a(2) by (rule loop_reaches.round)
  qed
  then show ?thesis by blast
qed

section \<open>The distance in the maze\<close>

lemma reach_iff_walk:
  "reach mat s n e \<longleftrightarrow> (\<exists>ps. length ps = n \<and> walk_from mat s ps \<and> last (s # ps) = e)"
proof
  assume "reach mat s n e"
  from reach_walk [OF this, unfolded end_of_def] show
    "\<exists>ps. length ps = n \<and> walk_from mat s ps \<and> last (s # ps) = e" .
next
  assume "\<exists>ps. length ps = n \<and> walk_from mat s ps \<and> last (s # ps) = e"
  then obtain ps where "length ps = n" "walk_from mat s ps" "last (s # ps) = e" by blast
  with walk_reach [of mat s ps, unfolded end_of_def] show "reach mat s n e" by simp
qed

lemma hop_distance_eq:
  assumes "reach mat s n e" "\<forall>m < n. \<not> reach mat s m e"
  shows "hop_distance mat s e = n"
proof -
  have "(LEAST k. reach mat s k e) = n"
  proof (rule Least_equality)
    show "reach mat s n e" by fact
    fix k assume "reach mat s k e"
    with assms(2) show "n \<le> k" by (meson not_less)
  qed
  then show ?thesis by (simp add: hop_distance_def reach_iff_walk)
qed

lemma walk_in_bounds:
  "walk_from mat s ps \<Longrightarrow> in_bounds mat s \<Longrightarrow> in_bounds mat (last (s # ps))"
  using reach_in_bounds [OF walk_reach, of mat s ps] unfolding end_of_def by blast

lemma plain_search_shortest:
  assumes src: "in_bounds mat s" and walk: "walk_from mat s ps" "last (s # ps) = e"
    and rect: "\<forall>row \<in> set mat. length row = w" "int (w * length mat) \<le> sys_maxsize"
  shows "\<exists>path moves. plain_search mat s e = Inr (Some path, Some moves)
           \<and> length moves = hop_distance mat s e \<and> length moves \<le> length ps
           \<and> length path = length moves \<and> walk_from mat s path \<and> last (s # path) = e"
proof -
  from walk have r: "reach mat s (length ps) e"
    using walk_reach [of mat s ps, unfolded end_of_def] by simp
  have "indexable mat e"
    using walk_in_bounds [OF walk(1) src] walk(2) by (auto intro: in_bounds_indexable)
  with src show ?thesis
  proof (cases rule: plain_search_bfs)
    case none
    with r show ?thesis by blast
  next
    case (found c)
    from rooted_reach [OF found(1)] found(2,3) have sh: "shortest mat s (depth c) e"
      by (simp add: shortest_def)
    from shortest_below_maxsize [OF sh src rect] rooted_dist [OF found(1)]
    have "cell_dist c \<noteq> sys_maxsize" by simp
    with found(4) have res: "plain_search mat s e = Inr (Some (trail c), Some (trail_moves c))"
      by simp
    have "hop_distance mat s e = depth c"
      using sh by (intro hop_distance_eq) (simp_all add: shortest_def)
    moreover have "depth c \<le> length ps"
      using found(3) r by (meson not_less)
    moreover have "last (s # trail c) = e"
      using rooted_last [OF found(1), unfolded end_of_def] found(2) by simp
    ultimately show ?thesis
      using res rooted_walk [OF found(1)] by simp
  qed
qed

lemma plain_search_unreachable:
  assumes src: "in_bounds mat s" and dst: "indexable mat e"
    and no: "\<not> (\<exists>ps. walk_from mat s ps \<and> last (s # ps) = e)"
  shows "plain_search mat s e = Inr (None, None)"
  using src dst
proof (cases rule: plain_search_bfs)
  case none
  then show ?thesis by simp
next
  case (found c)
  from rooted_walk [OF found(1)] rooted_last [OF found(1), unfolded end_of_def] found(2) no
  show ?thesis by blast
qed

lemma walk_confined:
  assumes "walk_from mat s ps" and "s \<in> S"
    and "\<And>p p'. p \<in> S \<Longrightarrow> adjacent p p' \<Longrightarrow> free_cell mat p' \<Longrightarrow> p' \<in> S"
  shows "last (s # ps) \<in> S"
  using assms(1,2)
proof (induction ps arbitrary: s)
  case Nil
  then show ?case by simp
next
  case (Cons p ps)
  then have "p \<in> S" using assms(3) by auto
  with Cons show ?case by auto
qed

lemma initial_marked_wrapped:
  assumes "indexable mat (sx, sy)"
  shows "\<exists>visited. store2 (map (map (\<lambda>_. False)) mat) sx sy True = Inr visited
           \<and> marked visited = {(int (wrap (length (mat ! wrap (length mat) sy)) sx),
                                 int (wrap (length mat) sy))}"
proof -
  let ?blank = "map (map (\<lambda>_. False)) mat"
  let ?j = "wrap (length mat) sy"
  let ?i = "wrap (length (mat ! ?j)) sx"
  from assms have j: "?j < length mat" and i: "?i < length (mat ! ?j)"
    by (auto simp: indexable_def intro: wrap_less)
  then have jb: "?j < length ?blank" and ib: "?i < length (?blank ! ?j)" by simp_all
  have "indexable ?blank (sx, sy)"
    using assms same_shape_indexable [OF same_shape_blank, of "\<lambda>_. False" mat] by simp
  then have "store2 ?blank sx sy True = Inr (?blank[?j := (?blank ! ?j)[?i := True]])"
    using j by (simp add: store2_eq)
  with marked_update [OF jb ib] show ?thesis
    by (simp add: marked_blank)
qed

section \<open>Which shortest path\<close>

lemma trans_move_lt: "trans move_lt"
  unfolding move_lt_def by (intro trans_inv_image trans_less_than)

lemma irrefl_move_lt: "(x, x) \<notin> move_lt"
  by (simp add: move_lt_def)

lemma rank_simps [simp]:
  "rank (Some ''Right'') = 0" "rank (Some ''Down'') = 1"
  "rank (Some ''Left'') = 2" "rank (Some ''Up'') = 3"
  by (simp_all add: rank_def possible_moves_def)

lemma moves_le_lex: "xs = ys \<or> (xs, ys) \<in> lex move_lt \<Longrightarrow> moves_le xs ys"
proof (induction xs ys rule: moves_le.induct)
  case (3 x xs y ys)
  then show ?case by (auto simp: move_lt_def)
qed auto

lemma lex_move_lt_trans:
  "(xs, ys) \<in> lex move_lt \<Longrightarrow> (ys, zs) \<in> lex move_lt \<Longrightarrow> (xs, zs) \<in> lex move_lt"
  using lex_transI [OF trans_move_lt] by (rule transD)

lemma lenlex_same_length:
  "(xs, ys) \<in> lenlex r \<Longrightarrow> length xs = length ys \<Longrightarrow> (xs, ys) \<in> lex r"
  by (simp add: lenlex_conv)

lemma possible_moves_cases:
  assumes "(move, d) \<in> set possible_moves"
  obtains "move = ''Right''" "d = (1, 0)" | "move = ''Down''" "d = (0, 1)"
    | "move = ''Left''" "d = (- 1, 0)" | "move = ''Up''" "d = (0, - 1)"
  using assms by (auto simp: possible_moves_def)

lemma move_of_delta:
  assumes "(m1, d1) \<in> set possible_moves" "(m2, d2) \<in> set possible_moves"
    and "moved p d1 = moved p d2"
  shows "m1 = m2"
  using assms(1)
proof (cases rule: possible_moves_cases)
qed (use assms(2,3) in \<open>auto simp: moved_def elim!: possible_moves_cases\<close>)

lemma moves_lead_length: "moves_lead p ms ps \<Longrightarrow> length ms = length ps"
  by (induction p ms ps rule: moves_lead.induct) (auto split: option.splits)

lemma moves_lead_functional:
  "moves_lead p ms ps \<Longrightarrow> moves_lead p ms ps' \<Longrightarrow> ps = ps'"
proof (induction p ms ps arbitrary: ps' rule: moves_lead.induct)
  case (1 p)
  then show ?case by (cases ps') auto
next
  case (2 p m ms p' ps)
  then show ?case by (cases ps') (auto split: option.splits)
qed auto

lemma moves_lead_single:
  "moves_lead p [m] [p'] \<longleftrightarrow> (\<exists>move d. m = Some move \<and> (move, d) \<in> set possible_moves \<and> p' = moved p d)"
proof
  assume "moves_lead p [m] [p']"
  then obtain move d where "m = Some move" "map_of possible_moves move = Some d" "p' = moved p d"
    by (auto split: option.splits)
  then show "\<exists>move d. m = Some move \<and> (move, d) \<in> set possible_moves \<and> p' = moved p d"
    by (blast dest: map_of_SomeD)
next
  assume "\<exists>move d. m = Some move \<and> (move, d) \<in> set possible_moves \<and> p' = moved p d"
  then show "moves_lead p [m] [p']"
    by (auto simp: map_of_possible_moves)
qed

text \<open>The tuples a round appends come in the order of the moves.\<close>

lemma for_each_visit_move_sorted:
  assumes "same_shape visited mat"
    and "for_each (visit_move mat c) mvs (visited, q) = Inr (visited', q @ new)"
    and "sorted_wrt R (map (\<lambda>(move, d). child c move d) mvs)"
  shows "sorted_wrt R new"
  using assms
proof (induction mvs arbitrary: visited q new)
  case Nil
  then show ?case by simp
next
  case (Cons mv mvs)
  obtain move d where mv: "mv = (move, d)" by (cases mv)
  from visit_move_effect [OF Cons.prems(1), of c move d q]
  obtain v1 new1 where one: "visit_move mat c (move, d) (visited, q) = Inr (v1, q @ new1)"
    and shape1: "same_shape v1 mat"
    and new1: "new1 = (if free_cell mat (moved (pt c) d) \<and> moved (pt c) d \<notin> marked visited
                       then [child c move d] else [])"
    by blast
  from for_each_visit_move_effect [OF shape1, of c mvs "q @ new1"]
  obtain v2 new2 where rest: "for_each (visit_move mat c) mvs (v1, q @ new1) = Inr (v2, (q @ new1) @ new2)"
    and elems: "\<forall>n \<in> set new2. \<exists>(move, d) \<in> set mvs. n = child c move d
                  \<and> free_cell mat (pt n) \<and> pt n \<notin> marked v1"
    by blast
  from Cons.prems(2) one rest mv have new: "new = new1 @ new2" and v2: "v2 = visited'"
    by simp_all
  from Cons.prems(3) have srt: "sorted_wrt R (map (\<lambda>(move, d). child c move d) mvs)"
    and first: "\<forall>x \<in> set mvs. R (child c move d) (case x of (move, d) \<Rightarrow> child c move d)"
    by (simp_all add: mv)
  from Cons.IH [OF shape1 rest [unfolded v2] srt] have s2: "sorted_wrt R new2" .
  have "R (child c move d) n" if "n \<in> set new2" for n
    using elems first that by fastforce
  with s2 new1 show ?case
    unfolding new by (simp add: sorted_wrt_append)
qed

lemma loop_body_continue_sorted:
  assumes "loop_body hook mat ex ey st = Inr (Continue, st')"
    and "same_shape (st_visited st) mat"
    and "st_q st = c # q" "st_q st' = q @ new"
    and "sorted_wrt R (map (\<lambda>(move, d). child c move d) possible_moves)"
  shows "sorted_wrt R new"
proof -
  obtain pr visited q0 cell md where st: "st = (pr, visited, q0, cell, md)"
    by (cases st)
  from assms(1,3) obtain v' q' where
    fe: "for_each (visit_move mat c) possible_moves (visited, q) = Inr (v', q')"
    and q': "st_q st' = q'"
    unfolding st loop_body_def
    by (auto split: list.splits sum.splits if_splits)
  from assms(2) have "same_shape visited mat" by (simp add: st)
  from this fe [unfolded q' [symmetric] assms(4)] assms(5) show ?thesis
    by (rule for_each_visit_move_sorted)
qed

lemma children_sorted:
  "sorted_wrt (\<lambda>a b. (trail_moves a, trail_moves b) \<in> lenlex move_lt)
     (map (\<lambda>(move, d). child c move d) possible_moves)"
  by (simp add: possible_moves_def lenlex_conv lex_append_left_iff irrefl_move_lt move_lt_def)

lemma key_inv_continue:
  assumes inv: "bfs_inv mat src (ex, ey) st" and key: "key_inv mat src st"
    and body: "loop_body hook mat ex ey st = Inr (Continue, st')"
  shows "key_inv mat src st'"
proof -
  let ?V = "marked (st_visited st)"
  let ?L = "\<lambda>a b. (trail_moves a, trail_moves b) \<in> lenlex move_lt"
  from inv have shape: "same_shape (st_visited st) mat" by (simp add: bfs_inv_def)
  from loop_body_continue [OF body shape]
  obtain c q new where q: "st_q st = c # q"
    and q': "st_q st' = q @ new"
    and new: "\<forall>n \<in> set new. \<exists>(move, d) \<in> set possible_moves.
        n = child c move d \<and> free_cell mat (pt n) \<and> pt n \<notin> ?V"
    by metis
  have new_sorted: "sorted_wrt ?L new"
    using body shape q q' children_sorted by (rule loop_body_continue_sorted)
  \<comment> \<open>what the breadth-first invariant gives\<close>
  from inv q have rooted: "\<forall>a \<in> set (c # q). rooted mat src a"
    and minimal: "\<forall>a \<in> set (c # q). \<forall>m < depth a. \<not> reach mat src m (pt a)"
    and srt: "sorted (map depth (c # q))"
    and spread: "\<forall>a \<in> set q. depth a \<le> Suc (depth c)"
    by (simp_all add: bfs_inv_def)
  from inv q have closed: "\<forall>p \<in> ?V. p \<notin> pt ` set (c # q) \<longrightarrow>
      (\<forall>p'. adjacent p p' \<and> free_cell mat p' \<longrightarrow> p' \<in> ?V)"
    unfolding bfs_inv_def by (simp del: split_paired_All)
  from srt have low: "\<forall>a \<in> set q. depth c \<le> depth a" by simp
  \<comment> \<open>what the invariant of the moves gives\<close>
  from key q have K1: "\<forall>a \<in> set (c # q). \<forall>ms ps.
         moves_lead src ms ps \<and> walk_from mat src ps \<and> end_of src ps = pt a
           \<and> length ms = depth a
         \<longrightarrow> trail_moves a = ms \<or> (trail_moves a, ms) \<in> lex move_lt"
    and K2: "sorted_wrt ?L (c # q)"
    and K3: "\<forall>n \<in> set q. depth n = Suc (depth c) \<longrightarrow>
           (butlast (trail_moves n), trail_moves c) \<in> lex move_lt"
    by (simp_all add: key_inv_def del: split_paired_All)
  have new_form: "\<exists>move d. (move, d) \<in> set possible_moves \<and> n = child c move d
      \<and> free_cell mat (pt n) \<and> pt n \<notin> ?V" if "n \<in> set new" for n
    using new that by blast
  have new_depth: "depth n = Suc (depth c)" if "n \<in> set new" for n
    using new_form [OF that] by auto
  have same_depth_lex: "trail_moves c = trail_moves a \<or> (trail_moves c, trail_moves a) \<in> lex move_lt"
    if "a \<in> set (c # q)" "depth a = depth c" for a
  proof (cases "a = c")
    case True
    then show ?thesis by simp
  next
    case False
    with that K2 have "(trail_moves c, trail_moves a) \<in> lenlex move_lt" by auto
    with that(2) show ?thesis by (simp add: lenlex_same_length)
  qed
  \<comment> \<open>the first part: the new tuples\<close>
  have first_new: "trail_moves n = ms \<or> (trail_moves n, ms) \<in> lex move_lt"
    if n: "n \<in> set new" and route: "moves_lead src ms ps" "walk_from mat src ps"
      "end_of src ps = pt n" "length ms = depth n" for n ms ps
  proof -
    from new_form [OF n] obtain move d where md: "(move, d) \<in> set possible_moves"
      "n = child c move d" "pt n \<notin> ?V"
      by blast
    from route(1,4) have len: "length ps = Suc (depth c)"
      using moves_lead_length new_depth [OF n] by metis
    then obtain ps0 p' where ps: "ps = ps0 @ [p']"
      by (cases ps rule: rev_cases) auto
    from route(4) new_depth [OF n] obtain ms0 m' where ms: "ms = ms0 @ [m']"
      by (cases ms rule: rev_cases) auto
    from len ps route(4) ms new_depth [OF n] have l0: "length ms0 = length ps0"
      "length ps0 = depth c"
      by simp_all
    from route(3) ps have p': "p' = pt n" by simp
    from route(1) have lead0: "moves_lead src ms0 ps0"
      and lead1: "moves_lead (end_of src ps0) [m'] [p']"
      unfolding ps ms by (simp_all add: moves_lead_append [OF l0(1)])
    from route(2) have walk0: "walk_from mat src ps0"
      and stp: "adjacent (end_of src ps0) p'" "free_cell mat p'"
      unfolding ps by (simp_all add: walk_from_append)
    let ?p0 = "end_of src ps0"
    have r0: "reach mat src (depth c) ?p0"
      using walk_reach [OF walk0] l0(2) by simp
    have "?p0 \<in> ?V"
      using bfs_inv_levels [OF inv q r0] by simp
    have "?p0 \<in> pt ` set (c # q)"
    proof (rule ccontr)
      assume "?p0 \<notin> pt ` set (c # q)"
      with closed \<open>?p0 \<in> ?V\<close> stp have "p' \<in> ?V" by blast
      with md(3) p' show False by simp
    qed
    then obtain c0 where c0: "c0 \<in> set (c # q)" "pt c0 = ?p0"
      by (metis imageE)
    have d0: "depth c0 = depth c"
    proof -
      from minimal c0 r0 have "\<not> depth c < depth c0" by auto
      moreover from low c0(1) have "depth c \<le> depth c0" by auto
      ultimately show ?thesis by simp
    qed
    from K1 c0 lead0 walk0 l0 d0
    have k0: "trail_moves c0 = ms0 \<or> (trail_moves c0, ms0) \<in> lex move_lt"
      by (metis (no_types))
    from same_depth_lex [OF c0(1) d0] k0
    have le: "trail_moves c = ms0 \<or> (trail_moves c, ms0) \<in> lex move_lt"
      by (auto intro: lex_move_lt_trans)
    have tn: "trail_moves n = trail_moves c @ [Some move]" by (simp add: md(2))
    from le show ?thesis
    proof
      assume "(trail_moves c, ms0) \<in> lex move_lt"
      then have "(trail_moves c @ [Some move], ms0 @ [m']) \<in> lex move_lt"
        by (rule lex_append_rightI) simp
      then show ?thesis by (simp add: tn ms)
    next
      assume eq: "trail_moves c = ms0"
      from rooted have rc: "rooted mat src c" by simp
      from rooted_moves_lead [OF rc] lead0 eq have "trail c = ps0"
        by (auto dest: moves_lead_functional)
      with rooted_last [OF rc] have p0: "?p0 = pt c" by simp
      from lead1 obtain move' d' where m': "m' = Some move'"
        "(move', d') \<in> set possible_moves" "p' = moved (pt c) d'"
        unfolding moves_lead_single p0 by blast
      from p' md(2) m'(3) have "moved (pt c) d = moved (pt c) d'"
        by (simp add: pt_child)
      with md(1) m'(2) have "move = move'" by (rule move_of_delta)
      with eq m'(1) show ?thesis by (simp add: tn ms)
    qed
  qed
  have first': "\<forall>a \<in> set (q @ new). \<forall>ms ps.
         moves_lead src ms ps \<and> walk_from mat src ps \<and> end_of src ps = pt a
           \<and> length ms = depth a
         \<longrightarrow> trail_moves a = ms \<or> (trail_moves a, ms) \<in> lex move_lt"
  proof (intro ballI allI impI, elim conjE)
    fix a ms ps
    assume a: "a \<in> set (q @ new)" and route: "moves_lead src ms ps" "walk_from mat src ps"
      "end_of src ps = pt a" "length ms = depth a"
    show "trail_moves a = ms \<or> (trail_moves a, ms) \<in> lex move_lt"
    proof (cases "a \<in> set new")
      case True
      from first_new [OF True route] show ?thesis .
    next
      case False
      with a have "a \<in> set (c # q)" by simp
      with K1 route show ?thesis by (metis (no_types))
    qed
  qed
  \<comment> \<open>the second part: the order of the queue\<close>
  have cross: "?L a n" if a: "a \<in> set q" and n: "n \<in> set new" for a n
  proof -
    from new_form [OF n] obtain move d where md: "n = child c move d" by blast
    then have tn: "trail_moves n = trail_moves c @ [Some move]" by simp
    from low spread a consider "depth a = depth c" | "depth a = Suc (depth c)"
      by (metis le_SucE le_antisym)
    then show ?thesis
    proof cases
      case 1
      then show ?thesis by (simp add: lenlex_conv tn)
    next
      case 2
      with K3 a have b: "(butlast (trail_moves a), trail_moves c) \<in> lex move_lt" by simp
      from 2 have "trail_moves a \<noteq> []" by (metis length_trail_moves list.size(3) nat.simps(3))
      then have "trail_moves a = butlast (trail_moves a) @ [last (trail_moves a)]" by simp
      moreover from b have "(butlast (trail_moves a) @ [last (trail_moves a)],
          trail_moves c @ [Some move]) \<in> lex move_lt"
        by (rule lex_append_rightI) simp
      ultimately have "(trail_moves a, trail_moves n) \<in> lex move_lt" by (simp add: tn)
      with 2 show ?thesis by (simp add: lenlex_conv tn)
    qed
  qed
  have sorted': "sorted_wrt ?L (q @ new)"
    using K2 new_sorted cross by (simp add: sorted_wrt_append)
  \<comment> \<open>the third part: the tuples one step deeper than the new front\<close>
  have deeper': "(butlast (trail_moves n), trail_moves (hd (q @ new))) \<in> lex move_lt"
    if n: "n \<in> set (q @ new)" and dn: "depth n = Suc (depth (hd (q @ new)))" for n
  proof -
    let ?h = "hd (q @ new)"
    have ne: "q @ new \<noteq> []" using n by auto
    then have h_in: "?h \<in> set (q @ new)" by (rule hd_in_set)
    have bounds: "depth c \<le> depth a \<and> depth a \<le> Suc (depth c)" if "a \<in> set (q @ new)" for a
      using that low spread new_depth by auto
    from bounds [OF h_in] bounds [OF n] dn have dh: "depth ?h = depth c"
      and dn': "depth n = Suc (depth c)"
      by simp_all
    from dh h_in new_depth have hq: "?h \<in> set q" by auto
    then have "q \<noteq> []" by auto
    from hq K2 have "(trail_moves c, trail_moves ?h) \<in> lenlex move_lt" by simp
    with dh have ch: "(trail_moves c, trail_moves ?h) \<in> lex move_lt"
      by (simp add: lenlex_same_length)
    show ?thesis
    proof (cases "n \<in> set new")
      case True
      from new_form [OF True] obtain move d where "n = child c move d" by blast
      then have "butlast (trail_moves n) = trail_moves c" by simp
      with ch show ?thesis by simp
    next
      case False
      with n have "n \<in> set q" by simp
      with K3 dn' have "(butlast (trail_moves n), trail_moves c) \<in> lex move_lt" by simp
      then show ?thesis using ch by (rule lex_move_lt_trans)
    qed
  qed
  show ?thesis
    unfolding key_inv_def q'
    using first' sorted' deeper' by blast
qed

lemma initial_key_inv:
  "key_inv mat (sx, sy) (pr, visited, [Cell sx sy 0 None None], Cell sx sy 0 None None, md)"
  by (auto simp: key_inv_def dest: moves_lead_length)

lemma while_q_key_outcome:
  assumes run: "while_q hook mat ex ey st = Inr fin"
    and inv: "bfs_inv mat src (ex, ey) st" and key: "key_inv mat src st"
  shows "(st_q fin = [] \<and> st_min_dist fin = st_min_dist st)
         \<or> (\<forall>ms ps. moves_lead src ms ps \<and> walk_from mat src ps
                \<and> end_of src ps = pt (st_cell fin) \<and> length ms = depth (st_cell fin)
              \<longrightarrow> trail_moves (st_cell fin) = ms
                  \<or> (trail_moves (st_cell fin), ms) \<in> lex move_lt)"
proof -
  let ?I = "\<lambda>s. bfs_inv mat src (ex, ey) s \<and> key_inv mat src s
                \<and> st_min_dist s = st_min_dist st"
  have step: "?I s'" if "?I s" "loop_body hook mat ex ey s = Inr (Continue, s')" for s s'
  proof -
    from that have shape: "same_shape (st_visited s) mat" by (simp add: bfs_inv_def)
    from loop_body_continue [OF that(2) shape] have "st_min_dist s' = st_min_dist s"
      by metis
    with that show ?thesis by (auto intro: bfs_inv_continue key_inv_continue)
  qed
  have "(?I fin \<and> st_q fin = [])
        \<or> (\<exists>s. ?I s \<and> loop_body hook mat ex ey s = Inr (Break, fin))"
  proof (rule while_q_rule [where I = ?I, OF run])
    show "?I st" using inv key by simp
    show "\<And>s s'. ?I s \<Longrightarrow> loop_body hook mat ex ey s = Inr (Continue, s') \<Longrightarrow> ?I s'"
      by (rule step)
  qed
  then consider "?I fin \<and> st_q fin = []"
    | s where "?I s" "loop_body hook mat ex ey s = Inr (Break, fin)"
    by blast
  then show ?thesis
  proof cases
    case 1
    then show ?thesis by simp
  next
    case 2
    from loop_body_break [OF 2(2)] obtain c where c: "st_q s = c # st_q fin" "st_cell fin = c"
      by metis
    from 2(1) have "key_inv mat src s" by simp
    with c(1) have "\<forall>ms ps. moves_lead src ms ps \<and> walk_from mat src ps
                \<and> end_of src ps = pt c \<and> length ms = depth c
              \<longrightarrow> trail_moves c = ms \<or> (trail_moves c, ms) \<in> lex move_lt"
      by (simp add: key_inv_def del: split_paired_All)
    with c(2) show ?thesis by simp
  qed
qed

lemma plain_search_first:
  assumes src: "in_bounds mat s"
    and res: "plain_search mat s e = Inr (Some path, Some moves)"
    and route: "moves_lead s ms ps" "walk_from mat s ps" "last (s # ps) = e"
      "length ms = length moves"
  shows "moves_le moves ms"
proof -
  obtain sx sy where s: "s = (sx, sy)" by (cases s)
  obtain ex ey where e: "e = (ex, ey)" by (cases e)
  have idx: "indexable mat s" using src by (rule in_bounds_indexable)
  from res have dst: "indexable mat e"
    using plain_search_cases [of mat s e] by (auto split: if_splits)
  from idx obtain visited where v: "store2 (map (map (\<lambda>_. False)) mat) sx sy True = Inr visited"
    and shape: "same_shape visited mat"
    unfolding s by (rule initial_visited)
  let ?st = "((), visited, [Cell sx sy 0 None None], Cell sx sy 0 None None, sys_maxsize)"
  have inv: "bfs_inv mat s (ex, ey) ?st"
    unfolding s using src [unfolded s] v by (rule initial_bfs_inv)
  have key: "key_inv mat s ?st" unfolding s by (rule initial_key_inv)
  have "inv_rooted mat s ?st" unfolding s using shape by (rule initial_inv_rooted)
  from while_q_returns_rooted [OF no_progress_ok idx this, of ex ey]
  obtain fin where run: "while_q no_progress mat ex ey ?st = Inr fin" by auto
  with search_eq [OF idx [unfolded s] dst [unfolded e] v, of no_progress "()"]
  have "plain_search mat s e = Inr (fst (finish fin))"
    by (simp add: plain_search_def s e split: prod.splits)
  with res have fin: "st_min_dist fin \<noteq> sys_maxsize" "moves = trail_moves (st_cell fin)"
    by (auto simp: fst_finish split: if_splits)
  have "rooted mat s (st_cell fin)" "pt (st_cell fin) = e"
    using while_q_bfs_outcome [OF run inv] fin(1) by (auto simp: e)
  with route fin(2) have "moves_lead s ms ps \<and> walk_from mat s ps
      \<and> end_of s ps = pt (st_cell fin) \<and> length ms = depth (st_cell fin)"
    by (simp add: end_of_def)
  with while_q_key_outcome [OF run inv key] fin
  have "moves = ms \<or> (moves, ms) \<in> lex move_lt" by auto
  then show ?thesis by (rule moves_le_lex)
qed

section \<open>The claims\<close>

subsection \<open>The shortest path\<close>

text \<open>
  Claim C1. Let the maze be rectangular with at most \<^verbatim>\<open>sys.maxsize\<close> cells (a bound every
  maze that fits in memory meets), let the source be a cell of the maze that is not a
  wall, and let \<open>ps\<close> be any walk from the source to the destination through cells that
  are in bounds and not walls. Then either file's function returns a path and its
  moves; the number of moves is the distance between source and destination in the
  four-neighbour grid graph, so it is at most the length of \<open>ps\<close>; and the returned
  path is itself such a walk from the source to the destination. This holds for every
  setting of the progress parameters under which \<^verbatim>\<open>gui_update\<close> cannot raise: always
  with progress off or without a window, and with a window when the symbols of the maze
  are those \<^verbatim>\<open>gui_update\<close> knows (or, in the first file, the maze is already drawn).
\<close>

theorem shortest_path_found:
  assumes "free_cell mat s" and "walk_from mat s ps" and "last (s # ps) = e"
    and "\<forall>row \<in> set mat. length row = w" and "int (w * length mat) \<le> sys_maxsize"
  shows "\<exists>path moves.
           (render_ok mat print_progress canvas maze_already_drawn \<longrightarrow>
              find_shortest_path mat s e print_progress canvas maze_already_drawn
                = Inr (Some path, Some moves))
           \<and> (render_ok mat print_progress canvas False \<longrightarrow>
                boi_find_shortest_path mat s e print_progress canvas
                  = Inr (Some path, Some moves))
           \<and> length moves = hop_distance mat s e \<and> length moves \<le> length ps
           \<and> length path = length moves \<and> walk_from mat s path \<and> last (s # path) = e"
proof -
  from assms(1) have "in_bounds mat s" by (auto simp: free_cell_def)
  from plain_search_shortest [OF this assms(2-5)] obtain path moves where
    run: "plain_search mat s e = Inr (Some path, Some moves)"
    and rest: "length moves = hop_distance mat s e" "length moves \<le> length ps"
      "length path = length moves" "walk_from mat s path" "last (s # path) = e"
    by blast
  have "render_ok mat print_progress canvas maze_already_drawn \<longrightarrow>
          find_shortest_path mat s e print_progress canvas maze_already_drawn
            = Inr (Some path, Some moves)"
    using run by (simp add: find_shortest_path_plain)
  moreover have "render_ok mat print_progress canvas False \<longrightarrow>
          boi_find_shortest_path mat s e print_progress canvas = Inr (Some path, Some moves)"
    using run by (simp add: boi_find_shortest_path_plain)
  ultimately show ?thesis using rest by blast
qed

theorem shortest_path_found_witness:
  "free_cell [[''S'', ''.'', ''.''], [''#'', ''#'', ''.''], [''.'', ''.'', ''E'']] (0, 0)
   \<and> walk_from [[''S'', ''.'', ''.''], [''#'', ''#'', ''.''], [''.'', ''.'', ''E'']] (0, 0)
        [(1, 0), (2, 0), (2, 1), (2, 2)]
   \<and> find_shortest_path [[''S'', ''.'', ''.''], [''#'', ''#'', ''.''], [''.'', ''.'', ''E'']]
        (0, 0) (2, 2) False None False
       = Inr (Some [(1, 0), (2, 0), (2, 1), (2, 2)],
              Some [Some ''Right'', Some ''Right'', Some ''Down'', Some ''Down''])
   \<and> hop_distance [[''S'', ''.'', ''.''], [''#'', ''#'', ''.''], [''.'', ''.'', ''E'']]
        (0, 0) (2, 2) = 4"
proof -
  let ?g = "[[''S'', ''.'', ''.''], [''#'', ''#'', ''.''], [''.'', ''.'', ''E'']]"
  have free: "free_cell ?g (0, 0)" by code_simp
  have walk: "walk_from ?g (0, 0) [(1, 0), (2, 0), (2, 1), (2, 2)]" by code_simp
  have dest: "last ((0, 0) # [(1, 0), (2, 0), (2, 1), (2, 2)]) = (2 :: int, 2 :: int)" by simp
  have rect: "\<forall>row \<in> set ?g. length row = 3" by simp
  have size: "int (3 * length ?g) \<le> sys_maxsize" by (simp add: sys_maxsize_def)
  have run: "find_shortest_path ?g (0, 0) (2, 2) False None False
       = Inr (Some [(1, 0), (2, 0), (2, 1), (2, 2)],
              Some [Some ''Right'', Some ''Right'', Some ''Down'', Some ''Down''])"
    by code_simp
  have render: "render_ok ?g False None False" by (simp add: render_ok_def)
  from shortest_path_found [OF free walk dest rect size,
      where print_progress = False and canvas = None and maze_already_drawn = False]
    run render
  have "hop_distance ?g (0, 0) (2, 2) = 4" by auto
  with free walk run show ?thesis by simp
qed

subsection \<open>The shape of a returned path\<close>

text \<open>
  Claim C2, as amended. The specification puts the source first in the path and has one
  move fewer than cells. The function leaves the source out: its docstring calls the
  path the points reached when executing the moves. So for every successful call
  of either file's function, \<open>moves\<close> and \<open>path\<close> have the same length; the source
  followed by \<open>path\<close> ends at the destination; each cell of \<open>path\<close> is in bounds, not a
  wall, and one of the four moves away from the cell before it (the source for the
  first); the move at each index is the one that leads there; and \<open>path\<close> is empty
  exactly when source and destination are the same cell.
\<close>

theorem path_omits_source:
  assumes "find_shortest_path mat s e print_progress canvas maze_already_drawn
             = Inr (Some path, Some moves)
           \<or> boi_find_shortest_path mat s e print_progress canvas = Inr (Some path, Some moves)"
  shows "length moves = length path \<and> last (s # path) = e \<and> walk_from mat s path
         \<and> moves_lead s moves path \<and> (path = [] \<longleftrightarrow> s = e)"
proof -
  from assms have "plain_search mat s e = Inr (Some path, Some moves)"
    by (auto dest: find_shortest_path_returned boi_find_shortest_path_returned)
  then show ?thesis by (rule plain_search_path)
qed

theorem path_omits_source_witness:
  "find_shortest_path [[''S'', ''.''], [''#'', ''E'']] (0, 0) (1, 1) False None False
     = Inr (Some [(1, 0), (1, 1)], Some [Some ''Right'', Some ''Down''])
   \<and> length [Some ''Right'', Some ''Down''] = length [(1 :: int, 0 :: int), (1, 1)]
   \<and> last ((0, 0) # [(1 :: int, 0 :: int), (1, 1)]) = (1, 1)"
proof -
  have run: "find_shortest_path [[''S'', ''.''], [''#'', ''E'']] (0, 0) (1, 1) False None False
     = Inr (Some [(1, 0), (1, 1)], Some [Some ''Right'', Some ''Down''])"
    by code_simp
  from path_omits_source [OF disjI1, OF run] run show ?thesis by simp
qed

text \<open>
  The claim as the specification states it fails on the maze \<^verbatim>\<open>S E\<close>: one move, one cell
  in the path, and the first cell of the path is not the source.
\<close>

theorem path_has_source_first_counterexample:
  "find_shortest_path [[''S'', ''E'']] (0, 0) (1, 0) False None False
     = Inr (Some [(1, 0)], Some [Some ''Right''])
   \<and> length [Some ''Right''] \<noteq> length [(1 :: int, 0 :: int)] - 1
   \<and> [(1 :: int, 0 :: int)] ! 0 \<noteq> (0, 0)"
  by code_simp

subsection \<open>Source and destination the same cell\<close>

text \<open>
  Claim C3, as amended. When source and destination are the same cell, and that cell can
  subscript the maze, either file's function returns an empty path and an empty list
  of moves (not the one-cell path of the specification), with or without progress
  reporting, as long as \<^verbatim>\<open>gui_update\<close> can draw the maze; when progress goes to a window
  and it cannot, the call raises in the first round of the loop: \<^verbatim>\<open>ZeroDivisionError\<close>
  for an empty first row, \<^verbatim>\<open>KeyError\<close> for a symbol \<^verbatim>\<open>gui_update\<close> does not know.
\<close>

theorem same_cell_empty_path:
  assumes "indexable mat s"
  shows "find_shortest_path mat s s print_progress canvas maze_already_drawn
           = (if render_ok mat print_progress canvas maze_already_drawn
              then Inr (Some [], Some [])
              else Inl (if hd mat = [] then ZeroDivisionError else KeyError))
         \<and> boi_find_shortest_path mat s s print_progress canvas
             = (if render_ok mat print_progress canvas False
                then Inr (Some [], Some [])
                else Inl (if hd mat = [] then ZeroDivisionError else KeyError))"
  using plain_search_same [OF assms]
  by (simp add: find_shortest_path_plain boi_find_shortest_path_plain
      find_shortest_path_raises [OF assms assms] boi_find_shortest_path_raises [OF assms assms])

theorem same_cell_empty_path_witness:
  "indexable [[''S'', ''.'']] (0, 0)
   \<and> render_ok [[''S'', ''.'']] True (Some (Surface 640 480)) False
   \<and> find_shortest_path [[''S'', ''.'']] (0, 0) (0, 0) True (Some (Surface 640 480)) False
       = Inr (Some [], Some [])
   \<and> boi_find_shortest_path [[''S'', ''.'']] (0, 0) (0, 0) True (Some (Surface 640 480))
       = Inr (Some [], Some [])"
proof -
  have idx: "indexable [[''S'', ''.'']] (0, 0)" by code_simp
  have render: "render_ok [[''S'', ''.'']] True (Some (Surface 640 480)) False" by code_simp
  from same_cell_empty_path [OF idx, of True "Some (Surface 640 480)" False] idx render
  show ?thesis by simp
qed

text \<open>On the one-cell maze the result is not the path \<open>[source]\<close>.\<close>

theorem same_cell_path_counterexample:
  "find_shortest_path [[''S'']] (0, 0) (0, 0) False None False \<noteq> Inr (Some [(0, 0)], Some [])"
  by code_simp

subsection \<open>A wall under an endpoint\<close>

text \<open>
  Claim C4. The entry test compares the two cells with the integer \<open>0\<close>, which no string
  equals, so a wall under the source or the destination is not rejected. On the maze
  \<^verbatim>\<open># .\<close> with the source on the wall the test passes and the search returns a path
  that starts on the wall. On the maze \<^verbatim>\<open>. . #\<close> with the destination on the wall the
  test passes as well, and the failure value is returned only after the loop has run:
  the state after its first round, with the cell next to the source marked and
  queued, is among the states of the call.
\<close>

theorem wall_endpoint_not_rejected:
  "[[''#'', ''.'']] ! 0 ! 0 = WALL
   \<and> invalid_input [[''#'', ''.'']] (0, 0) (1, 0) = Inr False
   \<and> find_shortest_path [[''#'', ''.'']] (0, 0) (1, 0) False None False
       = Inr (Some [(1, 0)], Some [Some ''Right''])
   \<and> [[''.'', ''.'', ''#'']] ! 0 ! 2 = WALL
   \<and> invalid_input [[''.'', ''.'', ''#'']] (0, 0) (2, 0) = Inr False
   \<and> find_shortest_path [[''.'', ''.'', ''#'']] (0, 0) (2, 0) False None False
       = Inr (None, None)
   \<and> (((None, [], []), False), [[True, True, False]],
        [Cell 1 0 1 (Some ''Right'') (Some (Cell 0 0 0 None None))],
        Cell 0 0 0 None None, sys_maxsize)
       \<in> search_states (progress_step [[''.'', ''.'', ''#'']] False None) ((None, [], []), False)
            [[''.'', ''.'', ''#'']] (0, 0) (2, 0)"
proof -
  let ?g = "[[''.'', ''.'', ''#'']]"
  let ?hook = "progress_step ?g False None"
  let ?root = "Cell 0 0 0 None None"
  let ?pr = "((None, [], []), False) :: point progress \<times> bool"
  let ?st0 = "(?pr, [[True, False, False]], [?root], ?root, sys_maxsize)"
  let ?st1 = "(?pr, [[True, True, False]],
               [Cell 1 0 1 (Some ''Right'') (Some ?root)], ?root, sys_maxsize)"
  have first: "[[''#'', ''.'']] ! 0 ! 0 = WALL
   \<and> invalid_input [[''#'', ''.'']] (0, 0) (1, 0) = Inr False
   \<and> find_shortest_path [[''#'', ''.'']] (0, 0) (1, 0) False None False
       = Inr (Some [(1, 0)], Some [Some ''Right''])"
    by code_simp
  have second: "?g ! 0 ! 2 = WALL \<and> invalid_input ?g (0, 0) (2, 0) = Inr False
   \<and> find_shortest_path ?g (0, 0) (2, 0) False None False = Inr (None, None)"
    by code_simp
  have init: "store2 (map (map (\<lambda>_. False)) ?g) 0 0 True = Inr [[True, False, False]]"
    by code_simp
  have body: "loop_body ?hook ?g 2 0 ?st0 = Inr (Continue, ?st1)"
    by code_simp
  have "loop_reaches ?hook ?g 2 0 ?st0 ?st0" by (rule loop_reaches.start)
  then have "loop_reaches ?hook ?g 2 0 ?st0 ?st1"
    using _ body by (rule loop_reaches.round) (simp add: st_q_def)
  with init have "?st1 \<in> search_states ?hook ?pr ?g (0, 0) (2, 0)"
    unfolding search_states_def by auto
  with first second show ?thesis by blast
qed

subsection \<open>Returning and raising\<close>

text \<open>
  Claim C5, as amended. The function is total. On an empty maze it returns
  \<^verbatim>\<open>(None, None)\<close>. On a non-empty maze whose source and destination are both within
  Python's subscript range (negative indices included) it returns, without raising,
  either \<^verbatim>\<open>(None, None)\<close> or a pair of a path and its moves; there is one failure value,
  not two. The one exception to returning there is progress reported to a window that
  \<^verbatim>\<open>gui_update\<close> cannot draw: the call raises \<^verbatim>\<open>ZeroDivisionError\<close> when the first row
  of the maze is empty, \<^verbatim>\<open>KeyError\<close> when the maze has to be drawn and holds a symbol
  \<^verbatim>\<open>gui_update\<close> does not know. On a non-empty maze with an endpoint outside the
  subscript range it raises \<^verbatim>\<open>IndexError\<close>.
\<close>

theorem returns_or_index_error:
  "(if mat = [] then
      find_shortest_path mat s e print_progress canvas maze_already_drawn = Inr (None, None)
    else if indexable mat s \<and> indexable mat e then
      (if render_ok mat print_progress canvas maze_already_drawn then
         find_shortest_path mat s e print_progress canvas maze_already_drawn = Inr (None, None)
         \<or> (\<exists>path moves. find_shortest_path mat s e print_progress canvas maze_already_drawn
                             = Inr (Some path, Some moves))
       else
         find_shortest_path mat s e print_progress canvas maze_already_drawn
           = Inl (if hd mat = [] then ZeroDivisionError else KeyError))
    else find_shortest_path mat s e print_progress canvas maze_already_drawn = Inl IndexError)"
proof (cases "render_ok mat print_progress canvas maze_already_drawn")
  case True
  have "plain_search mat s e = Inr (None, None)
        \<or> (\<exists>path moves. plain_search mat s e = Inr (Some path, Some moves))"
    if "indexable mat s" "indexable mat e"
    using plain_search_returns [OF that] plain_search_shape [of mat s e] by auto
  then show ?thesis
    using plain_search_cases [of mat s e] True
    by (auto simp: find_shortest_path_plain)
next
  case False
  then have ne: "mat \<noteq> []" by (auto simp: render_ok_def)
  show ?thesis
  proof (cases "indexable mat s \<and> indexable mat e")
    case True
    with False ne show ?thesis by (simp add: find_shortest_path_raises)
  next
    case no: False
    from ne no show ?thesis
      by (simp add: find_shortest_path_search search_raises [OF ne no])
  qed
qed

theorem returns_or_index_error_witness:
  "find_shortest_path [[''S'', ''#'', ''E'']] (0, 0) (2, 0) True None False = Inr (None, None)
   \<and> find_shortest_path [[''S'', ''#'', ''E'']] (0, 0) (3, 0) True None False = Inl IndexError
   \<and> find_shortest_path [] (0, 0) (3, 0) True None False = Inr (None, None)
   \<and> find_shortest_path [[''S'', ''x'', ''E'']] (0, 0) (2, 0) True (Some (Surface 640 480)) False
       = Inl KeyError"
proof -
  have "indexable [[''S'', ''#'', ''E'']] (0, 0)" "\<not> indexable [[''S'', ''#'', ''E'']] (3, 0)"
    by code_simp+
  with returns_or_index_error [of "[[''S'', ''#'', ''E'']]" "(0, 0)" "(3, 0)" True None False]
    returns_or_index_error [of "[]" "(0, 0)" "(3, 0)" True None False]
  have "find_shortest_path [[''S'', ''#'', ''E'']] (0, 0) (3, 0) True None False = Inl IndexError"
    "find_shortest_path [] (0, 0) (3, 0) True None False = Inr (None, None)"
    by simp_all
  moreover have "find_shortest_path [[''S'', ''#'', ''E'']] (0, 0) (2, 0) True None False
      = Inr (None, None)"
    by code_simp
  moreover have "indexable [[''S'', ''x'', ''E'']] (0, 0)" "indexable [[''S'', ''x'', ''E'']] (2, 0)"
    "\<not> render_ok [[''S'', ''x'', ''E'']] True (Some (Surface 640 480)) False"
    by code_simp+
  with returns_or_index_error [of "[[''S'', ''x'', ''E'']]" "(0, 0)" "(2, 0)" True
      "Some (Surface 640 480)" False]
  have "find_shortest_path [[''S'', ''x'', ''E'']] (0, 0) (2, 0) True (Some (Surface 640 480)) False
      = Inl KeyError"
    by simp
  ultimately show ?thesis by simp
qed

text \<open>An endpoint outside the maze is not reported as a result: the call raises.\<close>

theorem out_of_range_endpoint_counterexample:
  "find_shortest_path [[''.'']] (5, 5) (0, 0) False None False = Inl IndexError"
  by code_simp

subsection \<open>An unreachable destination\<close>

text \<open>
  Claim C6. Let the source be a cell of the maze that is not a wall and let the
  destination be within the subscript range of the maze. If no walk through cells that
  are in bounds and not walls leads from the source to the destination, either file's
  function returns \<^verbatim>\<open>(None, None)\<close>, for every setting of the progress parameters under
  which \<^verbatim>\<open>gui_update\<close> cannot raise; and in every state at the head of the loop during
  the call, whatever those parameters, each marked cell is the end of such a walk from
  the source. Marks are only ever added, one neighbour at a time, so the marks in the
  middle of a round lie between those of two such states.
\<close>

theorem unreachable_not_found:
  assumes "free_cell mat s" and "indexable mat e"
    and "\<not> (\<exists>ps. walk_from mat s ps \<and> last (s # ps) = e)"
  shows "(render_ok mat print_progress canvas maze_already_drawn \<longrightarrow>
            find_shortest_path mat s e print_progress canvas maze_already_drawn
              = Inr (None, None))
         \<and> (render_ok mat print_progress canvas False \<longrightarrow>
              boi_find_shortest_path mat s e print_progress canvas = Inr (None, None))
         \<and> (\<forall>st \<in> search_states (progress_step mat print_progress canvas)
                      ((None, [], []), maze_already_drawn) mat s e.
              \<forall>p \<in> marked (st_visited st). \<exists>ps. walk_from mat s ps \<and> last (s # ps) = p)
         \<and> (\<forall>st \<in> search_states (boi_progress_step mat print_progress canvas) (None, [], []) mat s e.
              \<forall>p \<in> marked (st_visited st). \<exists>ps. walk_from mat s ps \<and> last (s # ps) = p)"
proof -
  from assms(1) have src: "in_bounds mat s" by (auto simp: free_cell_def)
  have none: "plain_search mat s e = Inr (None, None)"
    using src assms(2,3) by (rule plain_search_unreachable)
  have a: "render_ok mat print_progress canvas maze_already_drawn \<longrightarrow>
            find_shortest_path mat s e print_progress canvas maze_already_drawn
              = Inr (None, None)"
    using none by (simp add: find_shortest_path_plain)
  have b: "render_ok mat print_progress canvas False \<longrightarrow>
            boi_find_shortest_path mat s e print_progress canvas = Inr (None, None)"
    using none by (simp add: boi_find_shortest_path_plain)
  have c: "\<forall>st \<in> search_states (progress_step mat print_progress canvas)
                    ((None, [], []), maze_already_drawn) mat s e.
             \<forall>p \<in> marked (st_visited st). \<exists>ps. walk_from mat s ps \<and> last (s # ps) = p"
    by (intro ballI) (rule search_states_marked [OF src])
  have d: "\<forall>st \<in> search_states (boi_progress_step mat print_progress canvas) (None, [], []) mat s e.
             \<forall>p \<in> marked (st_visited st). \<exists>ps. walk_from mat s ps \<and> last (s # ps) = p"
    by (intro ballI) (rule search_states_marked [OF src])
  from a b c d show ?thesis by (intro conjI)
qed

theorem unreachable_not_found_witness:
  "free_cell [[''S'', ''#'', ''E'']] (0, 0) \<and> indexable [[''S'', ''#'', ''E'']] (2, 0)
   \<and> \<not> (\<exists>ps. walk_from [[''S'', ''#'', ''E'']] (0, 0) ps \<and> last ((0, 0) # ps) = (2, 0))
   \<and> render_ok [[''S'', ''#'', ''E'']] True (Some (Surface 640 480)) False
   \<and> find_shortest_path [[''S'', ''#'', ''E'']] (0, 0) (2, 0) True (Some (Surface 640 480)) False
       = Inr (None, None)"
proof -
  let ?g = "[[''S'', ''#'', ''E'']]"
  have free: "free_cell ?g (0, 0)" by code_simp
  have idx: "indexable ?g (2, 0)" by code_simp
  have render: "render_ok ?g True (Some (Surface 640 480)) False" by code_simp
  have no: "\<not> (\<exists>ps. walk_from ?g (0, 0) ps \<and> last ((0, 0) # ps) = (2, 0))"
  proof
    assume "\<exists>ps. walk_from ?g (0, 0) ps \<and> last ((0, 0) # ps) = (2, 0)"
    then obtain ps where w: "walk_from ?g (0, 0) ps" "last ((0, 0) # ps) = (2, 0)" by blast
    have "last ((0, 0) # ps) \<in> {(0 :: int, 0 :: int)}"
    proof (rule walk_confined [OF w(1)])
      show "(0, 0) \<in> {(0 :: int, 0 :: int)}" by simp
      fix p p' :: point
      assume "p \<in> {(0, 0)}" "adjacent p p'" "free_cell ?g p'"
      then show "p' \<in> {(0, 0)}"
        by (auto simp: adjacent_def possible_moves_def moved_def free_cell_def in_bounds_def
                       WALL_def nth_Cons split: nat.splits)
    qed
    with w(2) show False by simp
  qed
  from unreachable_not_found [OF free idx no,
      where print_progress = True and canvas = "Some (Surface 640 480)"
        and maze_already_drawn = False]
    free idx no render
  show ?thesis by blast
qed

subsection \<open>Progress reporting\<close>

text \<open>
  Claim C7, as amended. The progress branch changes neither the \<open>visited\<close> matrix nor the
  queue nor any value of the result, but it can raise. With progress reported to the
  terminal (no window) either file's function gives the same outcome (the same path
  and moves, the same failure, the same exception) with progress reporting on as with
  it off, for every maze, source and destination. With progress reported to a window
  the same holds whenever \<^verbatim>\<open>gui_update\<close> can draw the maze: the first row is not empty,
  and every symbol is one of the four \<^verbatim>\<open>gui_update\<close> knows (in the first file, a maze
  already drawn may hold any symbol); every rectangular maze over the four symbols is
  of this kind or fails the entry test alike in both modes. In every case, a call that
  returns with progress reporting on returns what the call with it off returns. The
  calls into the window library themselves are taken to return.
\<close>

theorem progress_keeps_result:
  "find_shortest_path mat s e True None maze_already_drawn
     = find_shortest_path mat s e False None maze_already_drawn
   \<and> boi_find_shortest_path mat s e True None = boi_find_shortest_path mat s e False None
   \<and> (render_ok mat True canvas maze_already_drawn \<longrightarrow>
        find_shortest_path mat s e True canvas maze_already_drawn
          = find_shortest_path mat s e False canvas maze_already_drawn)
   \<and> (render_ok mat True canvas False \<longrightarrow>
        boi_find_shortest_path mat s e True canvas = boi_find_shortest_path mat s e False canvas)
   \<and> ((\<forall>row \<in> set mat. length row = w) \<and> known_symbols mat \<longrightarrow>
        find_shortest_path mat s e True canvas maze_already_drawn
          = find_shortest_path mat s e False canvas maze_already_drawn
        \<and> boi_find_shortest_path mat s e True canvas
            = boi_find_shortest_path mat s e False canvas)
   \<and> (find_shortest_path mat s e True canvas maze_already_drawn = Inr res \<longrightarrow>
        find_shortest_path mat s e False canvas maze_already_drawn = Inr res)
   \<and> (boi_find_shortest_path mat s e True canvas = Inr res \<longrightarrow>
        boi_find_shortest_path mat s e False canvas = Inr res)"
proof -
  have off: "render_ok mat False cv drawn" for cv drawn by (simp add: render_ok_def)
  have console: "render_ok mat pp None drawn" for pp drawn by (simp add: render_ok_def)
  have a: "find_shortest_path mat s e True None maze_already_drawn
         = find_shortest_path mat s e False None maze_already_drawn"
    by (simp add: find_shortest_path_plain console)
  have b: "boi_find_shortest_path mat s e True None = boi_find_shortest_path mat s e False None"
    by (simp add: boi_find_shortest_path_plain console)
  have c: "render_ok mat True canvas maze_already_drawn \<longrightarrow>
        find_shortest_path mat s e True canvas maze_already_drawn
          = find_shortest_path mat s e False canvas maze_already_drawn"
    by (simp add: find_shortest_path_plain off)
  have d: "render_ok mat True canvas False \<longrightarrow>
        boi_find_shortest_path mat s e True canvas = boi_find_shortest_path mat s e False canvas"
    by (simp add: boi_find_shortest_path_plain off)
  have e: "find_shortest_path mat s e True canvas maze_already_drawn
          = find_shortest_path mat s e False canvas maze_already_drawn
        \<and> boi_find_shortest_path mat s e True canvas
            = boi_find_shortest_path mat s e False canvas"
    if rect: "\<forall>row \<in> set mat. length row = w" and known: "known_symbols mat"
  proof (cases "mat = [] \<or> w = 0")
    case True
    have "\<not> indexable mat s" if "w = 0"
      using indexable_row [of mat "fst s" "snd s"] rect that by auto
    with True have "mat = [] \<or> (mat \<noteq> [] \<and> \<not> (indexable mat s \<and> indexable mat e))"
      by blast
    then show ?thesis
    proof
      assume "mat = []"
      then show ?thesis
        by (simp add: find_shortest_path_search boi_find_shortest_path_search search_empty)
    next
      assume "mat \<noteq> [] \<and> \<not> (indexable mat s \<and> indexable mat e)"
      then show ?thesis
        by (simp add: find_shortest_path_search boi_find_shortest_path_search search_raises)
    qed
  next
    case False
    then obtain row rows where mat: "mat = row # rows" by (cases mat) auto
    with False rect have "row \<noteq> []" by auto
    with known have "render_ok mat True canvas drawn" for drawn
      by (simp add: render_ok_def mat)
    then show ?thesis
      by (simp add: find_shortest_path_plain boi_find_shortest_path_plain off)
  qed
  have f: "find_shortest_path mat s e True canvas maze_already_drawn = Inr res \<longrightarrow>
        find_shortest_path mat s e False canvas maze_already_drawn = Inr res"
    by (auto dest: find_shortest_path_returned simp: find_shortest_path_plain off)
  have g: "boi_find_shortest_path mat s e True canvas = Inr res \<longrightarrow>
        boi_find_shortest_path mat s e False canvas = Inr res"
    by (auto dest: boi_find_shortest_path_returned simp: boi_find_shortest_path_plain off)
  from a b c d e f g show ?thesis by blast
qed

theorem progress_keeps_result_witness:
  "render_ok [[''S'', ''.''], [''#'', ''E'']] True (Some (Surface 640 480)) False
   \<and> find_shortest_path [[''S'', ''.''], [''#'', ''E'']] (0, 0) (1, 1) True
        (Some (Surface 640 480)) False
       = Inr (Some [(1, 0), (1, 1)], Some [Some ''Right'', Some ''Down''])
   \<and> find_shortest_path [[''S'', ''.''], [''#'', ''E'']] (0, 0) (1, 1) False
        (Some (Surface 640 480)) False
       = Inr (Some [(1, 0), (1, 1)], Some [Some ''Right'', Some ''Down''])
   \<and> boi_find_shortest_path [[''S'', ''.''], [''#'', ''E'']] (0, 0) (1, 1) False
        (Some (Surface 640 480))
       = Inr (Some [(1, 0), (1, 1)], Some [Some ''Right'', Some ''Down''])"
proof -
  let ?g = "[[''S'', ''.''], [''#'', ''E'']]"
  let ?w = "Some (Surface 640 480)"
  let ?res = "(Some [(1 :: int, 0 :: int), (1, 1)], Some [Some ''Right'', Some ''Down''])"
  have render: "render_ok ?g True ?w False" by code_simp
  have on: "find_shortest_path ?g (0, 0) (1, 1) True ?w False = Inr ?res"
    by code_simp
  have boi_on: "boi_find_shortest_path ?g (0, 0) (1, 1) True ?w = Inr ?res"
    by code_simp
  note keeps = progress_keeps_result [of ?g "(0, 0)" "(1, 1)" False ?w 2 ?res]
  note window = keeps [THEN conjunct2, THEN conjunct2, THEN conjunct1, THEN mp, OF render]
  note returned = keeps [THEN conjunct2, THEN conjunct2, THEN conjunct2, THEN conjunct2,
      THEN conjunct2, THEN conjunct2, THEN mp, OF boi_on]
  from window [symmetric] on
  have off: "find_shortest_path ?g (0, 0) (1, 1) False ?w False = Inr ?res"
    by (rule trans)
  from returned
  have boi_off: "boi_find_shortest_path ?g (0, 0) (1, 1) False ?w = Inr ?res" .
  from render on off boi_off show ?thesis by (intro conjI)
qed

text \<open>
  The claim as the specification states it fails with a window: on the maze whose first
  row is empty, and on the one-cell maze with the symbol \<^verbatim>\<open>x\<close>, the call with progress
  reporting on raises in \<^verbatim>\<open>gui_update\<close> where the call with it off returns.
\<close>

theorem progress_raises_counterexample:
  "find_shortest_path [[], [''.'']] (0, 1) (0, 1) True (Some (Surface 640 480)) False
     = Inl ZeroDivisionError
   \<and> find_shortest_path [[], [''.'']] (0, 1) (0, 1) False (Some (Surface 640 480)) False
       = Inr (Some [], Some [])
   \<and> boi_find_shortest_path [[], [''.'']] (0, 1) (0, 1) True (Some (Surface 640 480))
       = Inl ZeroDivisionError
   \<and> boi_find_shortest_path [[], [''.'']] (0, 1) (0, 1) False (Some (Surface 640 480))
       = Inr (Some [], Some [])
   \<and> find_shortest_path [[''x'']] (0, 0) (0, 0) True (Some (Surface 640 480)) False
       = Inl KeyError
   \<and> find_shortest_path [[''x'']] (0, 0) (0, 0) False (Some (Surface 640 480)) False
       = Inr (Some [], Some [])"
  by code_simp

subsection \<open>Determinism\<close>

text \<open>
  Claim C8. What a call returns is a function of the maze, the source and the
  destination alone: any two calls on them that return, return the same path and moves,
  whatever the progress parameters and whatever the module variable
  \<^verbatim>\<open>maze_already_drawn\<close> holds; and when \<^verbatim>\<open>gui_update\<close> cannot raise in either call, the
  two calls have the same outcome, exceptions included. The tie between shortest paths
  is settled by the order Right, Down, Left, Up in which a cell's neighbours are tried
  and the first in, first out order of the queue: when the source is a cell of the
  maze, the returned moves come first, in the position-by-position comparison by that
  order, among the move lists of their length that lead from the source to the
  destination through cells in bounds and not walls.
\<close>

theorem result_is_deterministic:
  "(find_shortest_path mat s e print_progress canvas maze_already_drawn = Inr res
      \<and> find_shortest_path mat s e print_progress' canvas' maze_already_drawn' = Inr res'
    \<longrightarrow> res = res')
   \<and> (boi_find_shortest_path mat s e print_progress canvas = Inr res
        \<and> boi_find_shortest_path mat s e print_progress' canvas' = Inr res'
      \<longrightarrow> res = res')
   \<and> (render_ok mat print_progress canvas maze_already_drawn
        \<and> render_ok mat print_progress' canvas' maze_already_drawn'
      \<longrightarrow> find_shortest_path mat s e print_progress canvas maze_already_drawn
            = find_shortest_path mat s e print_progress' canvas' maze_already_drawn')
   \<and> (render_ok mat print_progress canvas False \<and> render_ok mat print_progress' canvas' False
      \<longrightarrow> boi_find_shortest_path mat s e print_progress canvas
            = boi_find_shortest_path mat s e print_progress' canvas')
   \<and> map fst possible_moves = [''Right'', ''Down'', ''Left'', ''Up'']
   \<and> (in_bounds mat s
        \<and> find_shortest_path mat s e print_progress canvas maze_already_drawn
            = Inr (Some path, Some moves)
        \<and> moves_lead s ms ps \<and> walk_from mat s ps \<and> last (s # ps) = e
        \<and> length ms = length moves
      \<longrightarrow> moves_le moves ms)"
proof -
  have a: "find_shortest_path mat s e print_progress canvas maze_already_drawn = Inr res
      \<and> find_shortest_path mat s e print_progress' canvas' maze_already_drawn' = Inr res'
    \<longrightarrow> res = res'"
    by (auto dest!: find_shortest_path_returned)
  have b: "boi_find_shortest_path mat s e print_progress canvas = Inr res
        \<and> boi_find_shortest_path mat s e print_progress' canvas' = Inr res'
      \<longrightarrow> res = res'"
    by (auto dest!: boi_find_shortest_path_returned)
  have c: "render_ok mat print_progress canvas maze_already_drawn
        \<and> render_ok mat print_progress' canvas' maze_already_drawn'
      \<longrightarrow> find_shortest_path mat s e print_progress canvas maze_already_drawn
            = find_shortest_path mat s e print_progress' canvas' maze_already_drawn'"
    by (simp add: find_shortest_path_plain)
  have d: "render_ok mat print_progress canvas False \<and> render_ok mat print_progress' canvas' False
      \<longrightarrow> boi_find_shortest_path mat s e print_progress canvas
            = boi_find_shortest_path mat s e print_progress' canvas'"
    by (simp add: boi_find_shortest_path_plain)
  have f: "map fst possible_moves = [''Right'', ''Down'', ''Left'', ''Up'']"
    by (simp add: possible_moves_def)
  have g: "in_bounds mat s
        \<and> find_shortest_path mat s e print_progress canvas maze_already_drawn
            = Inr (Some path, Some moves)
        \<and> moves_lead s ms ps \<and> walk_from mat s ps \<and> last (s # ps) = e
        \<and> length ms = length moves
      \<longrightarrow> moves_le moves ms"
  proof (intro impI, elim conjE)
    assume "in_bounds mat s"
      "find_shortest_path mat s e print_progress canvas maze_already_drawn
         = Inr (Some path, Some moves)"
      "moves_lead s ms ps" "walk_from mat s ps" "last (s # ps) = e" "length ms = length moves"
    with find_shortest_path_returned [of mat s e print_progress canvas maze_already_drawn
        "(Some path, Some moves)"]
    show "moves_le moves ms"
      using plain_search_first [of mat s e path moves ms ps] by blast
  qed
  from a b c d f g show ?thesis by (intro conjI)
qed

theorem result_is_deterministic_witness:
  "in_bounds [[''S'', ''.''], [''.'', ''E'']] (0, 0)
   \<and> find_shortest_path [[''S'', ''.''], [''.'', ''E'']] (0, 0) (1, 1) True None False
       = Inr (Some [(1, 0), (1, 1)], Some [Some ''Right'', Some ''Down''])
   \<and> moves_lead (0, 0) [Some ''Down'', Some ''Right''] [(0, 1), (1, 1)]
   \<and> walk_from [[''S'', ''.''], [''.'', ''E'']] (0, 0) [(0, 1), (1, 1)]
   \<and> moves_le [Some ''Right'', Some ''Down''] [Some ''Down'', Some ''Right'']
   \<and> \<not> moves_le [Some ''Down'', Some ''Right''] [Some ''Right'', Some ''Down'']"
proof -
  let ?g = "[[''S'', ''.''], [''.'', ''E'']]"
  have b: "in_bounds ?g (0, 0)" by code_simp
  have run: "find_shortest_path ?g (0, 0) (1, 1) True None False
       = Inr (Some [(1, 0), (1, 1)], Some [Some ''Right'', Some ''Down''])"
    by code_simp
  have lead: "moves_lead (0, 0) [Some ''Down'', Some ''Right''] [(0, 1), (1, 1)]" by code_simp
  have walk: "walk_from ?g (0, 0) [(0, 1), (1, 1)]" by code_simp
  have other: "\<not> moves_le [Some ''Down'', Some ''Right''] [Some ''Right'', Some ''Down'']"
    by simp
  from result_is_deterministic [where mat = ?g and s = "(0, 0)" and e = "(1, 1)"
      and print_progress = True and canvas = None and maze_already_drawn = False
      and path = "[(1, 0), (1, 1)]" and moves = "[Some ''Right'', Some ''Down'']"
      and ms = "[Some ''Down'', Some ''Right'']" and ps = "[(0, 1), (1, 1)]"]
    b run lead walk
  have "moves_le [Some ''Right'', Some ''Down''] [Some ''Down'', Some ''Right'']"
    by simp
  with b run lead walk other show ?thesis by simp
qed

subsection \<open>The two files\<close>

text \<open>
  Claim C9. The function of \<^verbatim>\<open>Boi_pathfinding.py\<close> and the function of
  \<^verbatim>\<open>pathfinding.py\<close> give the same outcome on every maze, source and destination with
  progress reporting off, and also with any other setting of the progress parameters
  under which \<^verbatim>\<open>gui_update\<close> cannot raise in either call.
\<close>

theorem both_files_same_result:
  "boi_find_shortest_path mat s e False canvas
     = find_shortest_path mat s e False canvas' maze_already_drawn
   \<and> (render_ok mat print_progress canvas False
        \<and> render_ok mat print_progress' canvas' maze_already_drawn
      \<longrightarrow> boi_find_shortest_path mat s e print_progress canvas
            = find_shortest_path mat s e print_progress' canvas' maze_already_drawn)"
proof -
  have "render_ok mat False cv drawn" for cv drawn by (simp add: render_ok_def)
  then show ?thesis
    by (simp add: find_shortest_path_plain boi_find_shortest_path_plain)
qed

theorem both_files_same_result_witness:
  "render_ok [[''S'', ''.''], [''.'', ''E'']] True (Some (Surface 640 480)) False
   \<and> boi_find_shortest_path [[''S'', ''.''], [''.'', ''E'']] (0, 0) (1, 1) True
        (Some (Surface 640 480))
       = Inr (Some [(1, 0), (1, 1)], Some [Some ''Right'', Some ''Down''])
   \<and> find_shortest_path [[''S'', ''.''], [''.'', ''E'']] (0, 0) (1, 1) True
        (Some (Surface 640 480)) False
       = Inr (Some [(1, 0), (1, 1)], Some [Some ''Right'', Some ''Down''])"
proof -
  let ?g = "[[''S'', ''.''], [''.'', ''E'']]"
  have render: "render_ok ?g True (Some (Surface 640 480)) False" by code_simp
  have run: "boi_find_shortest_path ?g (0, 0) (1, 1) True (Some (Surface 640 480))
       = Inr (Some [(1, 0), (1, 1)], Some [Some ''Right'', Some ''Down''])"
    by code_simp
  from both_files_same_result [of ?g "(0, 0)" "(1, 1)" "Some (Surface 640 480)"
      "Some (Surface 640 480)" False True True] render run
  show ?thesis by simp
qed

subsection \<open>Negative coordinates\<close>

text \<open>
  Claim C10. Let source and destination be within Python's subscript range of the maze,
  at least one coordinate negative. The entry test does not reject the call: it reads
  the cells counted from the end of the row or column. The mark for the source goes to
  that wrapped cell too. The call returns without raising (for every setting of the
  progress parameters under which \<^verbatim>\<open>gui_update\<close> cannot raise), and when it returns a
  path, the path is a walk that starts from the source coordinates as they were given,
  the negative ones unchanged.
\<close>

theorem negative_endpoint_accepted:
  assumes "indexable mat (sx, sy)" and "indexable mat (ex, ey)"
    and "sx < 0 \<or> sy < 0 \<or> ex < 0 \<or> ey < 0"
  shows "invalid_input mat (sx, sy) (ex, ey) = Inr False
         \<and> load2 mat sx sy
             = Inr (mat ! wrap (length mat) sy ! wrap (length (mat ! wrap (length mat) sy)) sx)
         \<and> load2 mat ex ey
             = Inr (mat ! wrap (length mat) ey ! wrap (length (mat ! wrap (length mat) ey)) ex)
         \<and> (\<exists>visited. store2 (map (map (\<lambda>_. False)) mat) sx sy True = Inr visited
               \<and> marked visited = {(int (wrap (length (mat ! wrap (length mat) sy)) sx),
                                     int (wrap (length mat) sy))})
         \<and> (render_ok mat print_progress canvas maze_already_drawn \<longrightarrow>
              find_shortest_path mat (sx, sy) (ex, ey) print_progress canvas maze_already_drawn
                = Inr (None, None)
              \<or> (\<exists>path moves.
                    find_shortest_path mat (sx, sy) (ex, ey) print_progress canvas
                        maze_already_drawn
                      = Inr (Some path, Some moves)
                    \<and> walk_from mat (sx, sy) path \<and> last ((sx, sy) # path) = (ex, ey)))
         \<and> (find_shortest_path mat (sx, sy) (ex, ey) print_progress canvas maze_already_drawn
              = Inr (Some path, Some moves)
            \<longrightarrow> walk_from mat (sx, sy) path \<and> last ((sx, sy) # path) = (ex, ey))"
proof -
  have ne: "mat \<noteq> []" using assms(1) by (rule indexable_nonempty)
  with assms have entry: "invalid_input mat (sx, sy) (ex, ey) = Inr False"
    by (simp add: invalid_input_eq)
  from plain_search_returns [OF assms(1,2)] obtain res where
    res: "plain_search mat (sx, sy) (ex, ey) = Inr res" by blast
  have "plain_search mat (sx, sy) (ex, ey) = Inr (None, None)
        \<or> (\<exists>path moves. plain_search mat (sx, sy) (ex, ey) = Inr (Some path, Some moves)
              \<and> walk_from mat (sx, sy) path \<and> last ((sx, sy) # path) = (ex, ey))"
    using plain_search_shape [OF res] res plain_search_path [of mat "(sx, sy)" "(ex, ey)"]
    by auto
  then have run: "render_ok mat print_progress canvas maze_already_drawn \<longrightarrow>
              find_shortest_path mat (sx, sy) (ex, ey) print_progress canvas maze_already_drawn
                = Inr (None, None)
              \<or> (\<exists>path moves.
                    find_shortest_path mat (sx, sy) (ex, ey) print_progress canvas
                        maze_already_drawn
                      = Inr (Some path, Some moves)
                    \<and> walk_from mat (sx, sy) path \<and> last ((sx, sy) # path) = (ex, ey))"
    by (simp add: find_shortest_path_plain)
  have ret: "find_shortest_path mat (sx, sy) (ex, ey) print_progress canvas maze_already_drawn
              = Inr (Some path, Some moves)
            \<longrightarrow> walk_from mat (sx, sy) path \<and> last ((sx, sy) # path) = (ex, ey)"
    using plain_search_path [of mat "(sx, sy)" "(ex, ey)" path moves]
    by (auto dest: find_shortest_path_returned)
  from entry assms(1,2) initial_marked_wrapped [OF assms(1)] run ret show ?thesis
    by (simp add: load2_eq)
qed

theorem negative_endpoint_accepted_witness:
  "indexable [[''.'', ''.'', ''.'']] (- 1, 0) \<and> indexable [[''.'', ''.'', ''.'']] (1, 0)
   \<and> invalid_input [[''.'', ''.'', ''.'']] (- 1, 0) (1, 0) = Inr False
   \<and> find_shortest_path [[''.'', ''.'', ''.'']] (- 1, 0) (1, 0) False None False
       = Inr (Some [(0, 0), (1, 0)], Some [Some ''Right'', Some ''Right''])
   \<and> walk_from [[''.'', ''.'', ''.'']] (- 1, 0) [(0, 0), (1, 0)]"
proof -
  let ?g = "[[''.'', ''.'', ''.'']]"
  have s: "indexable ?g (- 1, 0)" and e: "indexable ?g (1, 0)" by code_simp+
  have neg: "(- 1 :: int) < 0 \<or> (0 :: int) < 0 \<or> (1 :: int) < 0 \<or> (0 :: int) < 0" by simp
  have run: "find_shortest_path ?g (- 1, 0) (1, 0) False None False
       = Inr (Some [(0, 0), (1, 0)], Some [Some ''Right'', Some ''Right''])"
    by code_simp
  have render: "render_ok ?g False None False" by (simp add: render_ok_def)
  from negative_endpoint_accepted [OF s e neg,
      where print_progress = False and canvas = None and maze_already_drawn = False
        and path = "[(0, 0), (1, 0)]" and moves = "[Some ''Right'', Some ''Right'']"]
    run s e render
  show ?thesis by auto
qed

end
